theory Spec2Isabelle
  imports Complex_Main "HOL-Library.Word" "HOL-Library.Multiset" "HOL-Library.Log_Nat"
begin

section \<open>JavaScript values used by the lyrics server and player\<close>

text \<open>
  A JavaScript string is a sequence of 16-bit code units. String literals of the
  development are written as Isabelle strings and converted with \<open>js\<close>.
\<close>

type_synonym code_unit = "16 word"
type_synonym jsstring = "code_unit list"

definition js :: "string \<Rightarrow> jsstring" where
  "js s = map of_char s"

subsection \<open>Numbers\<close>

text \<open>
  A JavaScript number is an IEEE 754 double. \<open>Fin x\<close> is the finite double whose value
  is the rational \<open>x\<close>. The two zeros are both \<open>Fin 0\<close>: they are equal in every
  comparison, and a difference that is a zero of either sign counts as zero in a sort.
\<close>

datatype jsnum = NaN | Fin rat | PosInf | NegInf

text \<open>
  \<open>number_value x\<close> is the Number value for a rational \<open>x\<close>: the double nearest to
  it, the one with the even significand when two are equally near, and an infinity when
  that double would be \<open>2 ^ 1024\<close> or more in magnitude. \<open>exponent a\<close> is the
  integer \<open>e\<close> with \<open>2 ^ e \<le> a < 2 ^ (e + 1)\<close>; the doubles of that magnitude are
  the multiples of \<open>2 ^ (e - 52)\<close>, and of \<open>2 ^ (- 1074)\<close> below \<open>2 ^ (- 1022)\<close>.
\<close>

definition pow2 :: "int \<Rightarrow> rat" where
  "pow2 e = (if 0 \<le> e then of_int (2 ^ nat e) else 1 / of_int (2 ^ nat (- e)))"

definition roundHalfEven :: "rat \<Rightarrow> int" where
  "roundHalfEven x =
     (let f = \<lfloor>x\<rfloor>; d = x - of_int f
      in if d < 1 / 2 then f
         else if 1 / 2 < d then f + 1
         else if even f then f else f + 1)"

definition exponent :: "rat \<Rightarrow> int" where
  "exponent a =
     (let d = (if 1 \<le> a then bitlen \<lfloor>a\<rfloor> - 1 else - (bitlen \<lfloor>1 / a\<rfloor> - 1))
      in if pow2 d \<le> a then d else d - 1)"

definition number_value :: "rat \<Rightarrow> jsnum" where
  "number_value x =
     (if x = 0 then Fin 0
      else (let a = \<bar>x\<bar>;
                e = max (exponent a) (- 1022);
                q = pow2 (e - 52);
                m = roundHalfEven (a / q)
            in if 1024 \<le> e \<or> (e = 1023 \<and> m = 2 ^ 53)
               then (if 0 < x then PosInf else NegInf)
               else Fin (if 0 < x then of_int m * q else - (of_int m * q))))"

text \<open>
  The operators \<open>- a\<close>, \<open>a + b\<close>, \<open>a - b\<close>, \<open>a * b\<close> and \<open>a / b\<close>: the exact result
  of two finite operands is rounded to a double. A finite number divided by zero gives
  the infinity of the dividend's sign (the zero taken as \<open>+0\<close>).
\<close>

fun jneg :: "jsnum \<Rightarrow> jsnum" where
  "jneg NaN = NaN"
| "jneg (Fin x) = Fin (- x)"
| "jneg PosInf = NegInf"
| "jneg NegInf = PosInf"

fun jadd :: "jsnum \<Rightarrow> jsnum \<Rightarrow> jsnum" where
  "jadd NaN b = NaN"
| "jadd a NaN = NaN"
| "jadd (Fin x) (Fin y) = number_value (x + y)"
| "jadd (Fin x) PosInf = PosInf"
| "jadd (Fin x) NegInf = NegInf"
| "jadd PosInf NegInf = NaN"
| "jadd PosInf b = PosInf"
| "jadd NegInf PosInf = NaN"
| "jadd NegInf b = NegInf"

fun jsub :: "jsnum \<Rightarrow> jsnum \<Rightarrow> jsnum" where
  "jsub NaN b = NaN"
| "jsub a NaN = NaN"
| "jsub (Fin x) (Fin y) = number_value (x - y)"
| "jsub (Fin x) PosInf = NegInf"
| "jsub (Fin x) NegInf = PosInf"
| "jsub PosInf PosInf = NaN"
| "jsub PosInf b = PosInf"
| "jsub NegInf NegInf = NaN"
| "jsub NegInf b = NegInf"

fun jmul :: "jsnum \<Rightarrow> jsnum \<Rightarrow> jsnum" where
  "jmul NaN b = NaN"
| "jmul a NaN = NaN"
| "jmul (Fin x) (Fin y) = number_value (x * y)"
| "jmul (Fin x) PosInf = (if x = 0 then NaN else if 0 < x then PosInf else NegInf)"
| "jmul (Fin x) NegInf = (if x = 0 then NaN else if 0 < x then NegInf else PosInf)"
| "jmul PosInf (Fin y) = (if y = 0 then NaN else if 0 < y then PosInf else NegInf)"
| "jmul NegInf (Fin y) = (if y = 0 then NaN else if 0 < y then NegInf else PosInf)"
| "jmul PosInf PosInf = PosInf"
| "jmul PosInf NegInf = NegInf"
| "jmul NegInf PosInf = NegInf"
| "jmul NegInf NegInf = PosInf"

fun jdiv :: "jsnum \<Rightarrow> jsnum \<Rightarrow> jsnum" where
  "jdiv NaN b = NaN"
| "jdiv a NaN = NaN"
| "jdiv (Fin x) (Fin y) =
     (if y = 0 then (if x = 0 then NaN else if 0 < x then PosInf else NegInf)
      else number_value (x / y))"
| "jdiv (Fin x) PosInf = Fin 0"
| "jdiv (Fin x) NegInf = Fin 0"
| "jdiv PosInf (Fin y) = (if 0 \<le> y then PosInf else NegInf)"
| "jdiv NegInf (Fin y) = (if 0 \<le> y then NegInf else PosInf)"
| "jdiv PosInf b = NaN"
| "jdiv NegInf b = NaN"

text \<open>The operator \<open>a >= b\<close> on numbers: false as soon as one side is NaN.\<close>

fun jge :: "jsnum \<Rightarrow> jsnum \<Rightarrow> bool" where
  "jge NaN b = False"
| "jge a NaN = False"
| "jge (Fin x) (Fin y) = (y \<le> x)"
| "jge (Fin x) PosInf = False"
| "jge (Fin x) NegInf = True"
| "jge PosInf b = True"
| "jge NegInf NegInf = True"
| "jge NegInf b = False"

definition isNaN :: "jsnum \<Rightarrow> bool" where
  "isNaN v \<longleftrightarrow> v = NaN"

subsection \<open>Character classes\<close>

text \<open>
  \<open>isSpace\<close> is the set that both \<open>String.prototype.trim\<close> and the regular
  expression class \<open>\s\<close> use: WhiteSpace and LineTerminator of ECMAScript.
  \<open>isLineTerminator\<close> is what the regular expression \<open>.\<close> refuses;
  \<open>isDigit\<close> is the class \<open>\d\<close>.
\<close>

definition isLineTerminator :: "code_unit \<Rightarrow> bool" where
  "isLineTerminator c \<longleftrightarrow> c = 0x0A \<or> c = 0x0D \<or> c = 0x2028 \<or> c = 0x2029"

definition isWhiteSpace :: "code_unit \<Rightarrow> bool" where
  "isWhiteSpace c \<longleftrightarrow>
     c = 0x09 \<or> c = 0x0B \<or> c = 0x0C \<or> c = 0x20 \<or> c = 0xA0 \<or> c = 0x1680 \<or>
     (0x2000 \<le> c \<and> c \<le> 0x200A) \<or> c = 0x202F \<or> c = 0x205F \<or> c = 0x3000 \<or>
     c = 0xFEFF"

definition isSpace :: "code_unit \<Rightarrow> bool" where
  "isSpace c \<longleftrightarrow> isWhiteSpace c \<or> isLineTerminator c"

definition isDigit :: "code_unit \<Rightarrow> bool" where
  "isDigit c \<longleftrightarrow> 0x30 \<le> c \<and> c \<le> 0x39"

subsection \<open>String built-ins\<close>

text \<open>\<open>s.trim()\<close>.\<close>

definition trim :: "jsstring \<Rightarrow> jsstring" where
  "trim s = rev (dropWhile isSpace (rev (dropWhile isSpace s)))"

text \<open>\<open>content.split('\n')\<close>: always at least one piece.\<close>

fun split_nl :: "jsstring \<Rightarrow> jsstring list" where
  "split_nl [] = [[]]"
| "split_nl (c # cs) =
     (if c = 0x0A then [] # split_nl cs
      else (case split_nl cs of
              [] \<Rightarrow> [[c]]
            | l # ls \<Rightarrow> (c # l) # ls))"

text \<open>
  \<open>line.split(/\s+/)\<close>: the pieces between maximal runs of white space; a leading
  or trailing run leaves an empty piece at that end.
\<close>

function split_ws :: "jsstring \<Rightarrow> jsstring list" where
  "split_ws s =
     (let tok = takeWhile (\<lambda>c. \<not> isSpace c) s;
          rest = dropWhile (\<lambda>c. \<not> isSpace c) s
      in if rest = [] then [tok] else tok # split_ws (dropWhile isSpace rest))"
  by pat_completeness auto
termination
proof (relation "measure length")
  show "wf (measure length)" by simp
next
  fix s :: jsstring and tok rest
  assume r: "rest = dropWhile (\<lambda>c. \<not> isSpace c) s" and ne: "rest \<noteq> []"
  from ne obtain c cs where rc: "rest = c # cs" by (cases rest) auto
  have "dropWhile (\<lambda>c. \<not> isSpace c) s = c # cs"
    using r rc by simp
  then have "isSpace c"
    by (simp add: dropWhile_eq_Cons_conv)
  then have "length (dropWhile isSpace rest) \<le> length cs"
    using rc by (simp add: length_dropWhile_le)
  moreover have "length rest \<le> length s"
    using r by (simp add: length_dropWhile_le)
  ultimately show "(dropWhile isSpace rest, s) \<in> measure length"
    using rc by simp
qed

declare split_ws.simps [simp del]

text \<open>\<open>parts.join(' ')\<close>.\<close>

fun join_sp :: "jsstring list \<Rightarrow> jsstring" where
  "join_sp [] = []"
| "join_sp [p] = p"
| "join_sp (p # q # ps) = p @ 0x20 # join_sp (q # ps)"

subsection \<open>Number parsing\<close>

definition digitVal :: "code_unit \<Rightarrow> nat" where
  "digitVal c = unat c - 48"

definition decimal :: "jsstring \<Rightarrow> nat" where
  "decimal ds = foldl (\<lambda>n c. 10 * n + digitVal c) 0 ds"

text \<open>
  \<open>parseInt(s)\<close> on a string that starts with a digit, as the groups that the tag
  pattern captures with \<open>\d+\<close> do, the only strings the server passes to it: the
  Number value of the integer that the leading digits spell in base ten, and NaN when
  there is no leading digit. (On the captured groups no white space, sign or \<open>0x\<close>
  prefix occurs. ECMAScript lets an implementation replace the digits after the 20th by
  zeros; the model keeps them all, as V8 does.)
\<close>

definition parseInt :: "jsstring \<Rightarrow> jsnum" where
  "parseInt s =
     (let ds = takeWhile isDigit s
      in if ds = [] then NaN else number_value (of_nat (decimal ds)))"

text \<open>
  \<open>parseFloat(s)\<close>: the Number value of the longest prefix of the string, leading
  white space skipped, that is a decimal literal (an optional sign, then \<open>Infinity\<close>,
  or digits with an optional fraction, or a fraction starting with the point, and an
  optional exponent); NaN when there is no such prefix. \<open>unsignedDecimal\<close> is the exact
  value of the literal without its sign, which is rounded and then negated for a minus
  sign.
\<close>

definition exponentPart :: "jsstring \<Rightarrow> int" where
  "exponentPart s =
     (case s of
        [] \<Rightarrow> 0
      | c # r \<Rightarrow>
          if c = 0x65 \<or> c = 0x45 then
            (case r of
               [] \<Rightarrow> 0
             | d # r' \<Rightarrow>
                 if d = 0x2B then int (decimal (takeWhile isDigit r'))
                 else if d = 0x2D then - int (decimal (takeWhile isDigit r'))
                 else int (decimal (takeWhile isDigit r)))
          else 0)"

definition scale10 :: "rat \<Rightarrow> int \<Rightarrow> rat" where
  "scale10 x e = (if 0 \<le> e then x * 10 ^ nat e else x / 10 ^ nat (- e))"

definition unsignedDecimal :: "jsstring \<Rightarrow> rat option" where
  "unsignedDecimal s =
     (let ip = takeWhile isDigit s; r = dropWhile isDigit s
      in case r of
           c # r' \<Rightarrow>
             if c = 0x2E then
               (let fp = takeWhile isDigit r'; r'' = dropWhile isDigit r'
                in if ip = [] \<and> fp = [] then None
                   else Some (scale10 (of_nat (decimal ip) + of_nat (decimal fp) / 10 ^ length fp)
                                (exponentPart r'')))
             else if ip = [] then None
             else Some (scale10 (of_nat (decimal ip)) (exponentPart r))
         | [] \<Rightarrow> if ip = [] then None else Some (of_nat (decimal ip)))"

definition isPrefix :: "jsstring \<Rightarrow> jsstring \<Rightarrow> bool" where
  "isPrefix p s \<longleftrightarrow> take (length p) s = p"

definition unsignedLiteral :: "jsstring \<Rightarrow> jsnum" where
  "unsignedLiteral s =
     (if isPrefix (js ''Infinity'') s then PosInf
      else case unsignedDecimal s of None \<Rightarrow> NaN | Some x \<Rightarrow> number_value x)"

definition parseFloat :: "jsstring \<Rightarrow> jsnum" where
  "parseFloat s =
     (case dropWhile isSpace s of
        [] \<Rightarrow> NaN
      | c # r \<Rightarrow>
          if c = 0x2B then unsignedLiteral r
          else if c = 0x2D then jneg (unsignedLiteral r)
          else unsignedLiteral (c # r))"

section \<open>The lyrics parser (server, \<open>parseLyrics\<close>)\<close>

text \<open>
  An element of the array \<open>lyrics\<close>; the field \<open>lyricText\<close> is the source's \<open>text\<close>.
\<close>

record lyric =
  timestamp :: jsnum
  lyricText :: jsstring
  lineNumber :: nat

subsection \<open>The tag pattern\<close>

text \<open>
  \<open>lrcRegex = /\[(\d+):(\d+)\.(\d+)\]\s*(.*)/\<close>. Each \<open>\d+\<close> is greedy and is
  followed by a literal that is not a digit, so the only way the pattern can match at a
  position is with the maximal run of digits; \<open>\s*\<close> is greedy too and \<open>(.*)\<close>
  then takes everything up to the next line terminator (\<open>afterTag\<close>). \<open>match_at\<close>
  is the attempt at the start of the string and returns the groups 1 to 4.
\<close>

fun expect :: "code_unit \<Rightarrow> jsstring \<Rightarrow> jsstring option" where
  "expect c [] = None"
| "expect c (x # xs) = (if x = c then Some xs else None)"

definition digitRun :: "jsstring \<Rightarrow> (jsstring \<times> jsstring) option" where
  "digitRun s =
     (let ds = takeWhile isDigit s
      in if ds = [] then None else Some (ds, dropWhile isDigit s))"

definition afterTag :: "jsstring \<Rightarrow> jsstring" where
  "afterTag s = takeWhile (\<lambda>c. \<not> isLineTerminator c) (dropWhile isSpace s)"

definition match_at :: "jsstring \<Rightarrow> (jsstring \<times> jsstring \<times> jsstring \<times> jsstring) option" where
  "match_at s =
     Option.bind (expect 0x5B s) (\<lambda>s1.
     Option.bind (digitRun s1) (\<lambda>(g1, s2).
     Option.bind (expect 0x3A s2) (\<lambda>s3.
     Option.bind (digitRun s3) (\<lambda>(g2, s4).
     Option.bind (expect 0x2E s4) (\<lambda>s5.
     Option.bind (digitRun s5) (\<lambda>(g3, s6).
     Option.bind (expect 0x5D s6) (\<lambda>s7.
     Some (g1, g2, g3, afterTag s7))))))))"

text \<open>
  \<open>line.match(lrcRegex)\<close>: the pattern is not anchored, so the match is the one at the
  leftmost position where an attempt succeeds; \<open>None\<close> is JavaScript's \<open>null\<close>.
\<close>

fun match_lrc :: "jsstring \<Rightarrow> (jsstring \<times> jsstring \<times> jsstring \<times> jsstring) option" where
  "match_lrc [] = None"
| "match_lrc (c # cs) =
     (case match_at (c # cs) of
        Some groups \<Rightarrow> Some groups
      | None \<Rightarrow> match_lrc cs)"

subsection \<open>The two passes over the lines\<close>

text \<open>
  The first loop of \<open>parseLyrics\<close>, from index \<open>i\<close> on, over the lines that are
  left; the state is \<open>hasLrcFormat\<close> and the array \<open>lyrics\<close>.
\<close>

fun lrcLoop :: "nat \<Rightarrow> jsstring list \<Rightarrow> bool \<Rightarrow> lyric list \<Rightarrow> bool \<times> lyric list" where
  "lrcLoop i [] hasLrcFormat lyrics = (hasLrcFormat, lyrics)"
| "lrcLoop i (l # ls) hasLrcFormat lyrics =
     (let line = trim l
      in if line = [] then lrcLoop (i + 1) ls hasLrcFormat lyrics
         else case match_lrc line of
                None \<Rightarrow> lrcLoop (i + 1) ls hasLrcFormat lyrics
              | Some (g1, g2, g3, g4) \<Rightarrow>
                  (let minutes = parseInt g1;
                       seconds = parseInt g2;
                       milliseconds = parseInt g3;
                       text' = trim g4;
                       ts = jadd (jadd (jmul minutes (Fin 60)) seconds)
                              (jdiv milliseconds (Fin 100))
                   in lrcLoop (i + 1) ls True
                        (if text' \<noteq> []
                         then lyrics @ [\<lparr>timestamp = ts, lyricText = text', lineNumber = i + 1\<rparr>]
                         else lyrics)))"

text \<open>The second loop, run only when the first one found no tag.\<close>

fun plainLoop :: "nat \<Rightarrow> jsstring list \<Rightarrow> lyric list \<Rightarrow> lyric list" where
  "plainLoop i [] lyrics = lyrics"
| "plainLoop i (l # ls) lyrics =
     (let line = trim l
      in if line = [] then plainLoop (i + 1) ls lyrics
         else (let parts = split_ws line
               in if 2 \<le> length parts then
                    (let ts = parseFloat (hd parts)
                     in if \<not> isNaN ts \<and> jge ts (Fin 0)
                        then plainLoop (i + 1) ls
                               (lyrics @ [\<lparr>timestamp = ts, lyricText = join_sp (tl parts),
                                           lineNumber = i + 1\<rparr>])
                        else plainLoop (i + 1) ls lyrics)
                  else plainLoop (i + 1) ls lyrics))"

subsection \<open>Sorting\<close>

text \<open>
  \<open>lyrics.sort((a, b) => a.timestamp - b.timestamp)\<close>. \<open>Array.prototype.sort\<close> is
  stable and orders \<open>a\<close> after \<open>b\<close> when the comparison is positive; a NaN
  comparison counts as zero. The model is the stable insertion sort for a comparison
  function: on entries whose time stamps are not NaN, as all entries of \<open>parseLyrics\<close>
  are, the comparison is consistent and every stable sort returns the same array.
\<close>

definition compareFn :: "lyric \<Rightarrow> lyric \<Rightarrow> jsnum" where
  "compareFn a b = jsub (timestamp a) (timestamp b)"

fun positive :: "jsnum \<Rightarrow> bool" where
  "positive (Fin x) = (0 < x)"
| "positive PosInf = True"
| "positive v = False"

fun insert_cmp :: "('a \<Rightarrow> 'a \<Rightarrow> jsnum) \<Rightarrow> 'a \<Rightarrow> 'a list \<Rightarrow> 'a list" where
  "insert_cmp cmp x [] = [x]"
| "insert_cmp cmp x (y # ys) =
     (if positive (cmp x y) then y # insert_cmp cmp x ys else x # y # ys)"

definition array_sort :: "('a \<Rightarrow> 'a \<Rightarrow> jsnum) \<Rightarrow> 'a list \<Rightarrow> 'a list" where
  "array_sort cmp xs = foldr (insert_cmp cmp) xs []"

subsection \<open>parseLyrics\<close>

definition parseLyrics :: "jsstring \<Rightarrow> lyric list" where
  "parseLyrics content =
     (let lines = split_nl content;
          (hasLrcFormat, lyrics) = lrcLoop 0 lines False [];
          lyrics' = (if \<not> hasLrcFormat then plainLoop 0 lines lyrics else lyrics)
      in array_sort compareFn lyrics')"

section \<open>The file hash registry (server)\<close>

text \<open>
  An exception thrown by a call; a function that can throw returns \<open>error + 'a\<close>,
  with \<open>Inl\<close> for the exception that leaves it.
\<close>

datatype error = IOError

text \<open>
  What the registry functions use of the host: the file system calls, the SHA-256
  digest in hexadecimal, \<open>path.basename\<close>, \<open>path.join(uploadsDir, file)\<close> and the
  clock (\<open>new Date().toISOString()\<close>). They are parameters of the model.
\<close>

record stats =
  isFile :: bool
  mtime :: jsstring

record env =
  readFileSync :: "jsstring \<Rightarrow> error + 8 word list"
  sha256_hex :: "8 word list \<Rightarrow> jsstring"
  basename :: "jsstring \<Rightarrow> jsstring"
  now :: jsstring
  existsSync_uploads :: bool
  readdirSync_uploads :: "error + jsstring list"
  statSync :: "jsstring \<Rightarrow> error + stats"
  join_uploads :: "jsstring \<Rightarrow> jsstring"

record fileInfo =
  filename :: jsstring
  originalName :: jsstring
  uploadDate :: jsstring
  hash :: jsstring

text \<open>The module-level \<open>fileHashes\<close>, a \<open>Map\<close> from digest to record.\<close>

type_synonym registry = "jsstring \<rightharpoonup> fileInfo"

text \<open>
  \<open>calculateFileHash\<close>: the \<open>try\<close> block reads and hashes, the \<open>catch\<close> block logs
  and returns \<open>null\<close> (\<open>None\<close>).
\<close>

definition calculateFileHash :: "env \<Rightarrow> jsstring \<Rightarrow> error + jsstring option" where
  "calculateFileHash e filePath =
     (case readFileSync e filePath of
        Inl err \<Rightarrow> Inr None
      | Inr fileBuffer \<Rightarrow> Inr (Some (sha256_hex e fileBuffer)))"

text \<open>
  In the three functions below the test \<open>!hash\<close> is true for \<open>null\<close> and for the
  empty string: the branches \<open>None\<close> and \<open>h = []\<close>.
\<close>

definition findDuplicateFile :: "env \<Rightarrow> registry \<Rightarrow> jsstring \<Rightarrow> error + fileInfo option" where
  "findDuplicateFile e fileHashes filePath =
     (case calculateFileHash e filePath of
        Inl err \<Rightarrow> Inl err
      | Inr None \<Rightarrow> Inr None
      | Inr (Some h) \<Rightarrow>
          if h = [] then Inr None
          else if fileHashes h \<noteq> None then Inr (fileHashes h)
          else Inr None)"

definition registerFile ::
    "env \<Rightarrow> registry \<Rightarrow> jsstring \<Rightarrow> jsstring \<Rightarrow> error + (fileInfo option \<times> registry)" where
  "registerFile e fileHashes filePath origName =
     (case calculateFileHash e filePath of
        Inl err \<Rightarrow> Inl err
      | Inr None \<Rightarrow> Inr (None, fileHashes)
      | Inr (Some h) \<Rightarrow>
          if h = [] then Inr (None, fileHashes)
          else (let info = \<lparr>filename = basename e filePath, originalName = origName,
                              uploadDate = now e, hash = h\<rparr>
                in Inr (Some info, fileHashes(h \<mapsto> info))))"

text \<open>
  The \<open>for\<close> loop of \<open>initializeFileHashes\<close>, inside its \<open>try\<close>: an exception of
  \<open>statSync\<close> ends the loop, and the registry keeps what was stored before it.
\<close>

fun initLoop :: "env \<Rightarrow> jsstring list \<Rightarrow> registry \<Rightarrow> registry \<times> error option" where
  "initLoop e [] fileHashes = (fileHashes, None)"
| "initLoop e (file # files) fileHashes =
     (let filePath = join_uploads e file
      in case statSync e filePath of
           Inl err \<Rightarrow> (fileHashes, Some err)
         | Inr st \<Rightarrow>
             if isFile st then
               (case calculateFileHash e filePath of
                  Inl err \<Rightarrow> (fileHashes, Some err)
                | Inr None \<Rightarrow> initLoop e files fileHashes
                | Inr (Some h) \<Rightarrow>
                    if h \<noteq> [] \<and> fileHashes h = None
                    then initLoop e files
                           (fileHashes(h \<mapsto>
                              \<lparr>filename = file, originalName = file,
                               uploadDate = mtime st, hash = h\<rparr>))
                    else initLoop e files fileHashes)
             else initLoop e files fileHashes)"

text \<open>
  \<open>initializeFileHashes\<close>: nothing to load when the directory does not exist (it is
  created); otherwise the loop over the directory listing, any exception caught and
  logged. The result is the registry afterwards.
\<close>

definition initializeFileHashes :: "env \<Rightarrow> registry \<Rightarrow> registry" where
  "initializeFileHashes e fileHashes =
     (if \<not> existsSync_uploads e then fileHashes
      else case readdirSync_uploads e of
             Inl err \<Rightarrow> fileHashes
           | Inr files \<Rightarrow> fst (initLoop e files fileHashes))"

section \<open>The playback synchronizer (player, \<open>updateLyrics\<close>)\<close>

record player =
  lyrics :: "lyric list"
  currentLyricIndex :: int
  isPlaying :: bool
  hasAudioElement :: bool
  display :: jsstring

text \<open>
  The \<open>for\<close> loop of \<open>updateLyrics\<close>, with \<open>k = i + 1\<close> indices still to visit, from
  the end of the array towards its start.
\<close>

fun findLyric :: "lyric list \<Rightarrow> jsnum \<Rightarrow> nat \<Rightarrow> int" where
  "findLyric ls currentTime 0 = - 1"
| "findLyric ls currentTime (Suc i) =
     (if jge currentTime (timestamp (ls ! i)) then int i
      else findLyric ls currentTime i)"

text \<open>
  One tick of \<open>updateLyrics\<close> with \<open>audioElement.currentTime\<close> as argument. The
  result is the player afterwards and whether the branch
  \<open>newLyricIndex !== this.currentLyricIndex\<close>, which updates the display, was taken.
\<close>

definition updateLyrics :: "player \<Rightarrow> jsnum \<Rightarrow> player \<times> bool" where
  "updateLyrics p currentTime =
     (if \<not> isPlaying p \<or> \<not> hasAudioElement p then (p, False)
      else (let newLyricIndex = findLyric (lyrics p) currentTime (length (lyrics p))
            in if newLyricIndex \<noteq> currentLyricIndex p then
                 (p\<lparr>currentLyricIndex := newLyricIndex,
                    display := (if 0 \<le> newLyricIndex
                                then lyricText (lyrics p ! nat newLyricIndex) else [])\<rparr>,
                  True)
               else (p, False)))"

text \<open>A sequence of ticks: the index and the change flag of each.\<close>

fun ticks :: "player \<Rightarrow> jsnum list \<Rightarrow> (int \<times> bool) list" where
  "ticks p [] = []"
| "ticks p (t # ts) =
     (let (p', changed) = updateLyrics p t
      in (currentLyricIndex p', changed) # ticks p' ts)"

text \<open>The player as its constructor leaves it once lyrics are loaded and playback runs.\<close>

definition playing :: "lyric list \<Rightarrow> player" where
  "playing ls = \<lparr>lyrics = ls, currentLyricIndex = - 1, isPlaying = True,
                  hasAudioElement = True, display = []\<rparr>"

section \<open>Definitions used to state the properties\<close>

subsection \<open>Numbers\<close>

text \<open>
  Every finite double is an integer multiple of \<open>2 ^ (- 1074)\<close> (\<open>onGrid\<close>).
  \<open>stamp v\<close> says that \<open>v\<close> is an infinity or a finite number of that form, so not
  NaN; \<open>nonneg v\<close> that it is \<open>+Infinity\<close> or finite and at least 0.
\<close>

definition onGrid :: "rat \<Rightarrow> bool" where
  "onGrid r \<longleftrightarrow> (\<exists>m::int. r = of_int m * pow2 (- 1074))"

definition stamp :: "jsnum \<Rightarrow> bool" where
  "stamp v \<longleftrightarrow> (case v of NaN \<Rightarrow> False | Fin r \<Rightarrow> onGrid r | PosInf \<Rightarrow> True | NegInf \<Rightarrow> True)"

definition nonneg :: "jsnum \<Rightarrow> bool" where
  "nonneg v \<longleftrightarrow> (case v of NaN \<Rightarrow> False | Fin r \<Rightarrow> 0 \<le> r | PosInf \<Rightarrow> True | NegInf \<Rightarrow> False)"

text \<open>
  The JavaScript expression \<open>m * 60 + s + f / 100\<close> on the Number values of three
  natural numbers: each operation rounds to a double.
\<close>

definition stampOf :: "nat \<Rightarrow> nat \<Rightarrow> nat \<Rightarrow> jsnum" where
  "stampOf m s f =
     jadd (jadd (jmul (number_value (of_nat m)) (Fin 60)) (number_value (of_nat s)))
          (jdiv (number_value (of_nat f)) (Fin 100))"

subsection \<open>Parser\<close>

text \<open>
  What one iteration of the first loop appends for the line \<open>l\<close> at index \<open>i\<close>, and
  what one iteration of the second loop appends; \<open>tagged l\<close> says that the first loop
  sets \<open>hasLrcFormat\<close> at \<open>l\<close>. The lemmas \<open>lrcLoop_eq\<close> and \<open>plainLoop_eq\<close>
  relate them to the loops.
\<close>

definition lrcLine :: "nat \<Rightarrow> jsstring \<Rightarrow> lyric list" where
  "lrcLine i l =
     (case match_lrc (trim l) of
        None \<Rightarrow> []
      | Some (g1, g2, g3, g4) \<Rightarrow>
          if trim g4 \<noteq> []
          then [\<lparr>timestamp = jadd (jadd (jmul (parseInt g1) (Fin 60)) (parseInt g2))
                               (jdiv (parseInt g3) (Fin 100)),
                 lyricText = trim g4, lineNumber = i + 1\<rparr>]
          else [])"

definition plainLine :: "nat \<Rightarrow> jsstring \<Rightarrow> lyric list" where
  "plainLine i l =
     (let parts = split_ws (trim l)
      in if trim l \<noteq> [] \<and> 2 \<le> length parts \<and> \<not> isNaN (parseFloat (hd parts))
            \<and> jge (parseFloat (hd parts)) (Fin 0)
         then [\<lparr>timestamp = parseFloat (hd parts), lyricText = join_sp (tl parts),
                lineNumber = i + 1\<rparr>]
         else [])"

text \<open>
  The order of two entries of the result: ascending time stamps, and source line order
  between equal time stamps.
\<close>

definition ordered :: "lyric \<Rightarrow> lyric \<Rightarrow> bool" where
  "ordered a b \<longleftrightarrow>
     jge (timestamp b) (timestamp a) \<and>
     (timestamp a = timestamp b \<longrightarrow> lineNumber a < lineNumber b)"

definition tagged :: "jsstring \<Rightarrow> bool" where
  "tagged l \<longleftrightarrow> (case match_lrc (trim l) of None \<Rightarrow> False | Some groups \<Rightarrow> True)"

text \<open>The text \<open>[M:S.F]\<close> of a tag with the digit groups \<open>M\<close>, \<open>S\<close> and \<open>F\<close>.\<close>

definition tagText :: "jsstring \<Rightarrow> jsstring \<Rightarrow> jsstring \<Rightarrow> jsstring" where
  "tagText M S F = 0x5B # M @ 0x3A # S @ 0x2E # F @ [0x5D]"

definition digitGroup :: "jsstring \<Rightarrow> bool" where
  "digitGroup ds \<longleftrightarrow> ds \<noteq> [] \<and> list_all isDigit ds"

text \<open>
  A token that is a number as a whole, in the words of the specification of the fallback
  format: an optional sign followed by \<open>Infinity\<close> or by a decimal literal (digits
  with an optional fraction, or a fraction starting with the point, and an optional
  exponent), with nothing after it.
\<close>

definition spec_exponent_end :: "jsstring \<Rightarrow> bool" where
  "spec_exponent_end r \<longleftrightarrow>
     (case r of
        [] \<Rightarrow> True
      | c # t \<Rightarrow>
          (c = 0x65 \<or> c = 0x45) \<and>
          (let ds = (case t of
                       [] \<Rightarrow> []
                     | d # u \<Rightarrow> if d = 0x2B \<or> d = 0x2D then u else t)
           in ds \<noteq> [] \<and> list_all isDigit ds))"

definition spec_unsigned_number :: "jsstring \<Rightarrow> bool" where
  "spec_unsigned_number s \<longleftrightarrow>
     (let ip = takeWhile isDigit s; r = dropWhile isDigit s
      in case r of
           [] \<Rightarrow> ip \<noteq> []
         | c # r' \<Rightarrow>
             if c = 0x2E
             then (ip \<noteq> [] \<or> takeWhile isDigit r' \<noteq> []) \<and>
                  spec_exponent_end (dropWhile isDigit r')
             else ip \<noteq> [] \<and> spec_exponent_end r)"

definition spec_valid_number :: "jsstring \<Rightarrow> bool" where
  "spec_valid_number tok \<longleftrightarrow>
     (let u = (case tok of
                 [] \<Rightarrow> []
               | c # r \<Rightarrow> if c = 0x2B \<or> c = 0x2D then r else tok)
      in u = js ''Infinity'' \<or> spec_unsigned_number u)"

text \<open>Sample inputs.\<close>

definition demo_tags :: jsstring where
  "demo_tags = js ''[00:01.00] b'' @ 0x0A # js ''[00:00.50] a'' @ 0x0A # js ''[00:01.00] c''"

definition demo_mixed :: jsstring where
  "demo_mixed = js ''[00:01.00] a'' @ 0x0A # js ''plain text line''"

definition demo_plain :: jsstring where
  "demo_plain = js ''0.5 hi there'' @ 0x0A # js ''notanumber skip this'' @ 0x0A # js ''2 bye''"

definition demo_blank :: jsstring where
  "demo_blank = js ''  '' @ [0x0A, 0x09, 0x0D, 0x0A]"


definition demo_signed :: jsstring where
  "demo_signed = js ''-1 before'' @ 0x0A # js ''+2 after'' @ 0x0A # js ''-0 zero''"

definition demo_rounded :: jsstring where
  "demo_rounded = js ''[00:01.14] first'' @ 0x0A # js ''[00:00.114] second''"


subsection \<open>Synchronizer\<close>

text \<open>
  The highest index whose time stamp is at most \<open>t\<close>, or \<open>-1\<close>; and the change flags
  of a sequence of resolved indices, each compared with the one before it.
\<close>

definition spec_index :: "lyric list \<Rightarrow> jsnum \<Rightarrow> int" where
  "spec_index ls t =
     (case filter (\<lambda>i. jge t (timestamp (ls ! i))) (rev [0..<length ls]) of
        [] \<Rightarrow> - 1
      | i # _ \<Rightarrow> int i)"

fun spec_changes :: "int \<Rightarrow> int list \<Rightarrow> (int \<times> bool) list" where
  "spec_changes prev [] = []"
| "spec_changes prev (r # rs) = (r, r \<noteq> prev) # spec_changes r rs"

definition demo_lyrics :: "lyric list" where
  "demo_lyrics =
     [\<lparr>timestamp = Fin 0, lyricText = js ''a'', lineNumber = 1\<rparr>,
      \<lparr>timestamp = Fin 10, lyricText = js ''b'', lineNumber = 2\<rparr>,
      \<lparr>timestamp = Fin 20, lyricText = js ''c'', lineNumber = 3\<rparr>]"

subsection \<open>Registry\<close>

text \<open>
  The digest under which the start-up scan would store a directory entry: defined when
  the entry is a regular file whose content can be read and hashed. \<open>statOk\<close> says
  that \<open>statSync\<close> does not throw on the entry.
\<close>

definition digestOf :: "env \<Rightarrow> jsstring \<Rightarrow> jsstring option" where
  "digestOf e file =
     (case statSync e (join_uploads e file) of
        Inl err \<Rightarrow> None
      | Inr st \<Rightarrow>
          if isFile st then
            (case calculateFileHash e (join_uploads e file) of
               Inr (Some d) \<Rightarrow> if d = [] then None else Some d
             | _ \<Rightarrow> None)
          else None)"

definition statOk :: "env \<Rightarrow> jsstring \<Rightarrow> bool" where
  "statOk e file \<longleftrightarrow> (case statSync e (join_uploads e file) of Inl err \<Rightarrow> False | Inr st \<Rightarrow> True)"

text \<open>
  A sample host: two files with the same content, one with another content, one that
  cannot be read; the digest function is a stand-in that is injective.
\<close>

definition demo_env :: env where
  "demo_env =
     \<lparr>readFileSync = (\<lambda>p. if p = js ''uploads/1-a.lrc'' \<or> p = js ''uploads/2-b.lrc''
                            then Inr [0x61, 0x62]
                            else if p = js ''uploads/3-c.lrc'' then Inr [0x63]
                            else Inl IOError),
      sha256_hex = map ucast,
      basename = drop 8,
      now = js ''2024-01-02T00:00:00.000Z'',
      existsSync_uploads = True,
      readdirSync_uploads = Inr [js ''1-a.lrc'', js ''gone.lrc'', js ''2-b.lrc'', js ''3-c.lrc''],
      statSync = (\<lambda>p. Inr \<lparr>isFile = True, mtime = js ''2024-01-01T00:00:00.000Z''\<rparr>),
      join_uploads = (\<lambda>f. js ''uploads/'' @ f)\<rparr>"

text \<open>The same host with a first directory entry on which \<open>statSync\<close> throws.\<close>

definition demo_env_lost :: env where
  "demo_env_lost =
     demo_env
       \<lparr>readdirSync_uploads := Inr [js ''lost'', js ''3-c.lrc''],
        statSync := (\<lambda>p. if p = js ''uploads/lost'' then Inl IOError
                         else Inr \<lparr>isFile = True, mtime = js ''2024-01-01T00:00:00.000Z''\<rparr>)\<rparr>"

definition demo_record :: fileInfo where
  "demo_record = \<lparr>filename = js ''1-a.lrc'', originalName = js ''a.lrc'',
                   uploadDate = js ''2024-01-01T00:00:00.000Z'', hash = js ''ab''\<rparr>"

definition demo_registry :: registry where
  "demo_registry = [js ''ab'' \<mapsto> demo_record]"


section \<open>Number values\<close>

lemma pow2_powi: "pow2 e = 2 powi e"
  by (simp add: pow2_def power_int_def field_simps)

lemma pow2_pos: "0 < pow2 e"
  by (simp add: pow2_powi)

lemma pow2_add: "pow2 (a + b) = pow2 a * pow2 b"
  by (simp add: pow2_powi power_int_add)

lemma pow2_mono: "a \<le> b \<Longrightarrow> pow2 a \<le> pow2 b"
  by (simp add: pow2_powi power_int_increasing)

lemma pow2_nonneg_exp: "0 \<le> k \<Longrightarrow> pow2 k = of_int (2 ^ nat k)"
  by (simp add: pow2_def)

lemma floor_le_roundHalfEven: "\<lfloor>x\<rfloor> \<le> roundHalfEven x"
  by (simp add: roundHalfEven_def Let_def)

lemma bitlen_pos:
  assumes "0 < n"
  shows "1 \<le> bitlen n"
proof (rule ccontr)
  assume "\<not> 1 \<le> bitlen n"
  then have "nat (bitlen n) = 0" by simp
  with bitlen_bounds [OF assms] have "n < 1" by simp
  with assms show False by simp
qed

lemma exponent_lower:
  assumes "0 < a"
  shows "pow2 (exponent a) \<le> a"
proof (cases "1 \<le> a")
  case True
  then have f: "0 < \<lfloor>a\<rfloor>" by simp
  define d where "d = bitlen \<lfloor>a\<rfloor> - 1"
  have "(2::int) ^ nat d \<le> \<lfloor>a\<rfloor>"
    using bitlen_bounds [OF f] by (simp add: d_def)
  then have "(of_int (2 ^ nat d) :: rat) \<le> of_int \<lfloor>a\<rfloor>"
    by (simp only: of_int_le_iff)
  also have "\<dots> \<le> a" by simp
  finally have "of_int (2 ^ nat d) \<le> a" .
  moreover have "0 \<le> d" using bitlen_pos [OF f] by (simp add: d_def)
  ultimately have "pow2 d \<le> a" by (simp add: pow2_nonneg_exp)
  then show ?thesis
    using True by (simp add: exponent_def d_def Let_def)
next
  case False
  define y where "y = 1 / a"
  have y: "1 < y" using False assms by (simp add: y_def)
  then have f: "0 < \<lfloor>y\<rfloor>" by simp
  define k where "k = bitlen \<lfloor>y\<rfloor>"
  have kpos: "0 < k"
    using bitlen_pos [OF f] by (simp add: k_def)
  have "\<lfloor>y\<rfloor> < 2 ^ nat k"
    using bitlen_bounds [OF f] by (simp add: k_def)
  then have "\<lfloor>y\<rfloor> + 1 \<le> 2 ^ nat k" by simp
  then have "(of_int (\<lfloor>y\<rfloor> + 1) :: rat) \<le> of_int (2 ^ nat k)"
    by (simp only: of_int_le_iff)
  moreover have "y < of_int (\<lfloor>y\<rfloor> + 1)" by linarith
  ultimately have "y < of_int (2 ^ nat k)" by simp
  then have "y < pow2 k" using kpos by (simp add: pow2_nonneg_exp)
  then have "1 / pow2 k < a"
    using assms pow2_pos [of k] by (simp add: y_def field_simps)
  moreover have "pow2 (- k) = 1 / pow2 k"
    by (simp add: pow2_powi power_int_minus field_simps)
  ultimately have low: "pow2 (- k) \<le> a" by simp
  show ?thesis
  proof (cases "pow2 (- (k - 1)) \<le> a")
    case True
    then show ?thesis
      using False by (simp add: exponent_def Let_def y_def k_def)
  next
    case n: False
    then show ?thesis
      using False low by (simp add: exponent_def Let_def y_def k_def)
  qed
qed

lemma pow2_grid:
  assumes "- 1022 \<le> e"
  shows "onGrid (of_int m * pow2 (e - 52))"
proof -
  have "pow2 (e - 52) = pow2 ((e + 1022) + (- 1074))" by simp
  also have "\<dots> = pow2 (e + 1022) * pow2 (- 1074)" by (rule pow2_add)
  also have "pow2 (e + 1022) = of_int (2 ^ nat (e + 1022))"
    using assms by (simp add: pow2_nonneg_exp)
  finally have "of_int m * pow2 (e - 52) = of_int (m * 2 ^ nat (e + 1022)) * pow2 (- 1074)"
    by simp
  then show ?thesis unfolding onGrid_def by blast
qed

lemma onGrid_0: "onGrid 0"
  unfolding onGrid_def by (rule exI [of _ 0]) simp

lemma onGrid_minus: "onGrid r \<Longrightarrow> onGrid (- r)"
  unfolding onGrid_def
proof -
  assume "\<exists>m::int. r = of_int m * pow2 (- 1074)"
  then obtain m :: int where "r = of_int m * pow2 (- 1074)" ..
  then have "- r = of_int (- m) * pow2 (- 1074)" by simp
  then show "\<exists>m::int. - r = of_int m * pow2 (- 1074)" ..
qed

lemma onGrid_diff:
  assumes "onGrid x" "onGrid y"
  shows "onGrid (x - y)"
proof -
  from assms obtain m n :: int where "x = of_int m * pow2 (- 1074)" "y = of_int n * pow2 (- 1074)"
    unfolding onGrid_def by blast
  then have "x - y = of_int (m - n) * pow2 (- 1074)" by (simp add: algebra_simps)
  then show ?thesis unfolding onGrid_def ..
qed

lemma onGrid_pos:
  assumes "onGrid z" "0 < z"
  shows "pow2 (- 1074) \<le> z"
proof -
  from assms(1) obtain m :: int where z: "z = of_int m * pow2 (- 1074)"
    unfolding onGrid_def by blast
  with assms(2) pow2_pos [of "- 1074"] have "0 < (of_int m :: rat)"
    by (simp add: zero_less_mult_iff)
  then have "1 \<le> m" by simp
  then have "(1::rat) \<le> of_int m" by simp
  then have "1 * pow2 (- 1074) \<le> of_int m * pow2 (- 1074)"
    using pow2_pos [of "- 1074"] by (intro mult_right_mono) simp_all
  with z show ?thesis by simp
qed

lemma number_value_cases:
  obtains "number_value x = PosInf" "0 < x"
  | "number_value x = NegInf" "x < 0"
  | m e where "number_value x = Fin (if 0 < x then of_int m * pow2 (e - 52) else - (of_int m * pow2 (e - 52)))"
      "- 1022 \<le> e" "0 \<le> m" "x \<noteq> 0" "e = max (exponent \<bar>x\<bar>) (- 1022)"
      "m = roundHalfEven (\<bar>x\<bar> / pow2 (e - 52))"
  | "number_value x = Fin 0" "x = 0"
proof (cases "x = 0")
  case True
  then show ?thesis using that(4) by (simp add: number_value_def)
next
  case False
  define e where "e = max (exponent \<bar>x\<bar>) (- 1022)"
  define m where "m = roundHalfEven (\<bar>x\<bar> / pow2 (e - 52))"
  have "0 \<le> \<bar>x\<bar> / pow2 (e - 52)" using pow2_pos [of "e - 52"] by simp
  then have "0 \<le> \<lfloor>\<bar>x\<bar> / pow2 (e - 52)\<rfloor>" by simp
  then have "0 \<le> roundHalfEven (\<bar>x\<bar> / pow2 (e - 52))"
    using floor_le_roundHalfEven [of "\<bar>x\<bar> / pow2 (e - 52)"] by (rule order_trans)
  then have m0: "0 \<le> m" by (simp only: m_def)
  have e0: "- 1022 \<le> e" by (simp add: e_def)
  have nv: "number_value x =
      (if 1024 \<le> e \<or> (e = 1023 \<and> m = 2 ^ 53)
       then (if 0 < x then PosInf else NegInf)
       else Fin (if 0 < x then of_int m * pow2 (e - 52) else - (of_int m * pow2 (e - 52))))"
    unfolding number_value_def Let_def e_def m_def using False by (simp only: if_False)
  show ?thesis
  proof (cases "1024 \<le> e \<or> (e = 1023 \<and> m = 2 ^ 53)")
    case True
    then have inf: "number_value x = (if 0 < x then PosInf else NegInf)"
      by (simp only: nv if_True)
    show ?thesis
    proof (cases "0 < x")
      case True
      with inf that(1) show ?thesis by simp
    next
      case neg: False
      with False have "x < 0" by simp
      with inf neg that(2) show ?thesis by simp
    qed
  next
    case ov: False
    then have "number_value x =
        Fin (if 0 < x then of_int m * pow2 (e - 52) else - (of_int m * pow2 (e - 52)))"
      by (simp only: nv if_False)
    then show ?thesis using that(3) e0 m0 False e_def m_def by blast
  qed
qed

lemma number_value_not_NaN: "number_value x \<noteq> NaN"
  by (cases x rule: number_value_cases) auto

lemma number_value_grid: "number_value x = Fin r \<Longrightarrow> onGrid r"
proof (cases x rule: number_value_cases)
  case (3 m e)
  assume "number_value x = Fin r"
  with 3(1) have "r = (if 0 < x then of_int m * pow2 (e - 52) else - (of_int m * pow2 (e - 52)))"
    by simp
  then show ?thesis
    using pow2_grid [OF 3(2), of m] onGrid_minus by auto
qed (auto simp: onGrid_0)

lemma number_value_nonneg:
  assumes "0 \<le> x"
  shows "number_value x = PosInf \<or> (\<exists>r. number_value x = Fin r \<and> 0 \<le> r)"
proof (cases x rule: number_value_cases)
  case (3 m e)
  then show ?thesis using assms pow2_pos [of "e - 52"] by auto
qed (use assms in auto)

lemma number_value_nonpos:
  assumes "x \<le> 0"
  shows "\<not> positive (number_value x)"
proof (cases x rule: number_value_cases)
  case (3 m e)
  have "0 \<le> (of_int m :: rat) * pow2 (e - 52)"
    using 3(3) pow2_pos [of "e - 52"] by simp
  then show ?thesis using assms 3(1,4) by simp
qed (use assms in auto)

lemma number_value_positive:
  assumes "pow2 (- 1074) \<le> x"
  shows "positive (number_value x)"
proof (cases x rule: number_value_cases)
  case (3 m e)
  have xpos: "0 < x" using assms pow2_pos [of "- 1074"] by linarith
  have q: "pow2 (e - 52) \<le> x"
  proof (cases "exponent \<bar>x\<bar> \<le> - 1022")
    case True
    then have "e = - 1022" using 3(5) by simp
    then show ?thesis using assms by simp
  next
    case False
    then have "e = exponent x" using 3(5) xpos by simp
    then have "pow2 (e - 52) \<le> pow2 (exponent x)" by (intro pow2_mono) simp
    also have "\<dots> \<le> x" using xpos by (rule exponent_lower)
    finally show ?thesis .
  qed
  then have "1 \<le> \<bar>x\<bar> / pow2 (e - 52)"
    using xpos pow2_pos [of "e - 52"] by (simp add: field_simps)
  then have "1 \<le> \<lfloor>\<bar>x\<bar> / pow2 (e - 52)\<rfloor>" by simp
  then have "1 \<le> roundHalfEven (\<bar>x\<bar> / pow2 (e - 52))"
    using floor_le_roundHalfEven [of "\<bar>x\<bar> / pow2 (e - 52)"] by (rule order_trans)
  then have "1 \<le> m" by (simp only: 3(6))
  then have "0 < (of_int m :: rat) * pow2 (e - 52)"
    using pow2_pos [of "e - 52"] by simp
  then show ?thesis using 3(1) xpos by simp
next
  case 4
  then show ?thesis using assms pow2_pos [of "- 1074"] by simp
next
  case 2
  then show ?thesis using assms pow2_pos [of "- 1074"] by simp
qed auto

lemma number_value_diff_positive:
  assumes "onGrid x" "onGrid y"
  shows "positive (number_value (x - y)) \<longleftrightarrow> y < x"
proof (cases "y < x")
  case True
  then have "pow2 (- 1074) \<le> x - y"
    using onGrid_pos [OF onGrid_diff [OF assms]] by simp
  then show ?thesis using True number_value_positive by blast
next
  case False
  then have "x - y \<le> 0" by simp
  then show ?thesis using False number_value_nonpos by blast
qed

text \<open>
  The exponent is exact, and the two ends of the range: a value of \<open>2 ^ 1024\<close> or more
  becomes \<open>+Infinity\<close>, a value below \<open>2 ^ (- 1075)\<close>, half the least positive
  double, becomes zero.
\<close>

lemma exponent_upper:
  assumes "0 < a"
  shows "a < pow2 (exponent a + 1)"
proof (cases "1 \<le> a")
  case True
  then have f: "0 < \<lfloor>a\<rfloor>" by simp
  define d where "d = bitlen \<lfloor>a\<rfloor> - 1"
  have d0: "0 \<le> d" using bitlen_pos [OF f] by (simp add: d_def)
  have "(2::int) ^ nat d \<le> \<lfloor>a\<rfloor>"
    using bitlen_bounds [OF f] by (simp add: d_def)
  then have "(of_int (2 ^ nat d) :: rat) \<le> of_int \<lfloor>a\<rfloor>"
    by (simp only: of_int_le_iff)
  also have "\<dots> \<le> a" by simp
  finally have "of_int (2 ^ nat d) \<le> a" .
  then have low: "pow2 d \<le> a" using d0 by (simp add: pow2_nonneg_exp)
  have e: "exponent a = d"
    using True low by (simp add: exponent_def d_def Let_def)
  have "\<lfloor>a\<rfloor> < 2 ^ nat (d + 1)"
    using bitlen_bounds [OF f] by (simp add: d_def)
  then have "\<lfloor>a\<rfloor> + 1 \<le> 2 ^ nat (d + 1)" by simp
  then have "(of_int (\<lfloor>a\<rfloor> + 1) :: rat) \<le> of_int (2 ^ nat (d + 1))"
    by (simp only: of_int_le_iff)
  moreover have "a < of_int (\<lfloor>a\<rfloor> + 1)" by linarith
  ultimately have "a < of_int (2 ^ nat (d + 1))" by (rule less_le_trans [rotated])
  then show ?thesis using d0 by (simp add: e pow2_nonneg_exp)
next
  case False
  define y where "y = 1 / a"
  have y: "1 < y" using False assms by (simp add: y_def)
  then have f: "0 < \<lfloor>y\<rfloor>" by simp
  define k where "k = bitlen \<lfloor>y\<rfloor>"
  have kpos: "0 < k"
    using bitlen_pos [OF f] by (simp add: k_def)
  have "(2::int) ^ nat (k - 1) \<le> \<lfloor>y\<rfloor>"
    using bitlen_bounds [OF f] by (simp add: k_def)
  then have "(of_int (2 ^ nat (k - 1)) :: rat) \<le> of_int \<lfloor>y\<rfloor>"
    by (simp only: of_int_le_iff)
  also have "\<dots> \<le> y" by simp
  finally have "pow2 (k - 1) \<le> y" using kpos by (simp add: pow2_nonneg_exp)
  then have "1 / y \<le> 1 / pow2 (k - 1)"
    using pow2_pos [of "k - 1"] by (simp add: frac_le)
  moreover have "1 / pow2 (k - 1) = pow2 (- (k - 1))"
    using pow2_add [of "k - 1" "- (k - 1)"] pow2_pos [of "k - 1"]
    by (simp add: field_simps pow2_def)
  ultimately have up: "a \<le> pow2 (- (k - 1))"
    using assms by (simp add: y_def)
  have ex: "exponent a = (if pow2 (- (k - 1)) \<le> a then - (k - 1) else - (k - 1) - 1)"
    using False by (simp add: exponent_def Let_def k_def y_def)
  show ?thesis
  proof (cases "pow2 (- (k - 1)) \<le> a")
    case True
    have "pow2 (- (k - 1)) < pow2 (- (k - 1) + 1)"
      using pow2_add [of "- (k - 1)" 1] pow2_pos [of "- (k - 1)"] by (simp add: pow2_def)
    with up True show ?thesis by (simp add: ex)
  next
    case False
    with up show ?thesis by (simp add: ex)
  qed
qed

lemma number_value_overflow:
  assumes "pow2 1024 \<le> x"
  shows "number_value x = PosInf"
proof -
  have x: "0 < x" using assms pow2_pos [of 1024] by linarith
  have "1024 \<le> exponent x"
  proof (rule ccontr)
    assume "\<not> 1024 \<le> exponent x"
    then have "exponent x + 1 \<le> 1024" by simp
    then have "pow2 (exponent x + 1) \<le> pow2 1024" by (rule pow2_mono)
    with exponent_upper [OF x] assms show False by linarith
  qed
  then show ?thesis using x by (simp add: number_value_def Let_def)
qed

lemma number_value_underflow:
  assumes "0 \<le> x" and "x < pow2 (- 1075)"
  shows "number_value x = Fin 0"
proof (cases "x = 0")
  case True
  then show ?thesis by (simp add: number_value_def)
next
  case False
  then have x: "0 < x" using assms by simp
  have e: "exponent x \<le> - 1022"
  proof (rule ccontr)
    assume "\<not> exponent x \<le> - 1022"
    then have "- 1075 \<le> exponent x" by simp
    then have "pow2 (- 1075) \<le> pow2 (exponent x)" by (rule pow2_mono)
    with exponent_lower [OF x] assms show False by linarith
  qed
  have q: "pow2 (- 1075) = pow2 (- 1074) / 2"
    using pow2_add [of "- 1075" 1] by (simp add: pow2_def)
  define z where "z = x / pow2 (- 1074)"
  have zh: "z < 1 / 2"
    using assms(2) pow2_pos [of "- 1074"] by (simp add: q field_simps z_def)
  have z0: "0 \<le> z"
    using x pow2_pos [of "- 1074"] by (simp add: z_def)
  from z0 zh have "z < 1" by linarith
  with z0 have "\<lfloor>z\<rfloor> = 0"
    by (simp add: floor_eq_iff)
  then have "roundHalfEven z = 0"
    using zh by (simp add: roundHalfEven_def Let_def)
  then have "roundHalfEven (x / pow2 (- 1074)) = 0"
    by (simp add: z_def)
  then show ?thesis
    using x e by (simp add: number_value_def Let_def max_def)
qed

subsection \<open>Results of the operators\<close>

lemma number_value_stamp: "stamp (number_value x)"
proof (cases "number_value x")
  case NaN
  then show ?thesis using number_value_not_NaN by blast
next
  case (Fin r)
  then show ?thesis using number_value_grid by (simp add: stamp_def)
qed (simp_all add: stamp_def)

lemma nonneg_number_value: "0 \<le> x \<Longrightarrow> nonneg (number_value x)"
  using number_value_nonneg [of x] by (auto simp: nonneg_def)

lemma jmul_60_nonneg: "nonneg a \<Longrightarrow> nonneg (jmul a (Fin 60))"
  by (cases a) (simp_all add: nonneg_def [of "Fin _"] nonneg_def [of PosInf] nonneg_def [of NaN]
      nonneg_def [of NegInf] nonneg_number_value)

lemma jdiv_100_nonneg: "nonneg a \<Longrightarrow> nonneg (jdiv a (Fin 100))"
  by (cases a) (simp_all add: nonneg_def [of "Fin _"] nonneg_def [of PosInf] nonneg_def [of NaN]
      nonneg_def [of NegInf] nonneg_number_value)

lemma jadd_nonneg:
  assumes "nonneg a" "nonneg b"
  shows "nonneg (jadd a b) \<and> stamp (jadd a b)"
proof (cases a)
  case (Fin x)
  show ?thesis
  proof (cases b)
    case (Fin y)
    with \<open>a = Fin x\<close> assms have "0 \<le> x + y" by (simp add: nonneg_def)
    then show ?thesis
      using \<open>a = Fin x\<close> Fin by (simp add: nonneg_number_value number_value_stamp)
  qed (use assms Fin in \<open>simp_all add: nonneg_def stamp_def\<close>)
next
  case PosInf
  then show ?thesis using assms by (cases b) (simp_all add: nonneg_def stamp_def)
qed (use assms in \<open>simp_all add: nonneg_def\<close>)

lemma parseInt_group: "digitGroup ds \<Longrightarrow> parseInt ds = number_value (of_nat (decimal ds))"
  by (simp add: parseInt_def digitGroup_def list_all_iff takeWhile_eq_all_conv [THEN iffD2])

lemma parseInt_nonneg: "digitGroup ds \<Longrightarrow> nonneg (parseInt ds)"
  by (simp add: parseInt_group nonneg_number_value)

lemma tag_stamp:
  assumes "digitGroup g1" "digitGroup g2" "digitGroup g3"
  shows "stamp (jadd (jadd (jmul (parseInt g1) (Fin 60)) (parseInt g2))
                  (jdiv (parseInt g3) (Fin 100)))"
proof -
  have "nonneg (jadd (jmul (parseInt g1) (Fin 60)) (parseInt g2))"
    using jadd_nonneg [OF jmul_60_nonneg [OF parseInt_nonneg [OF assms(1)]]
        parseInt_nonneg [OF assms(2)]] by blast
  then show ?thesis
    using jadd_nonneg [OF _ jdiv_100_nonneg [OF parseInt_nonneg [OF assms(3)]]] by blast
qed

lemma tag_stamp_of:
  assumes "digitGroup g1" "digitGroup g2" "digitGroup g3"
  shows "jadd (jadd (jmul (parseInt g1) (Fin 60)) (parseInt g2)) (jdiv (parseInt g3) (Fin 100)) =
           stampOf (decimal g1) (decimal g2) (decimal g3)"
  using assms by (simp add: parseInt_group stampOf_def)

lemma jneg_stamp: "stamp v \<Longrightarrow> stamp (jneg v)"
  by (cases v) (simp_all add: stamp_def onGrid_minus)

lemma unsignedLiteral_stamp:
  assumes "unsignedLiteral s \<noteq> NaN"
  shows "stamp (unsignedLiteral s)"
proof (cases "isPrefix (js ''Infinity'') s")
  case True
  then show ?thesis by (simp add: unsignedLiteral_def stamp_def)
next
  case False
  show ?thesis
  proof (cases "unsignedDecimal s")
    case None
    with False assms show ?thesis by (simp add: unsignedLiteral_def)
  next
    case (Some x)
    with False have "unsignedLiteral s = number_value x" by (simp add: unsignedLiteral_def)
    then show ?thesis by (simp only: number_value_stamp)
  qed
qed

lemma parseFloat_stamp:
  assumes "parseFloat s \<noteq> NaN"
  shows "stamp (parseFloat s)"
proof (cases "dropWhile isSpace s")
  case Nil
  with assms show ?thesis by (simp add: parseFloat_def)
next
  case (Cons c r)
  show ?thesis
  proof (cases "c = 0x2D")
    case True
    with Cons assms have "unsignedLiteral r \<noteq> NaN"
      by (auto simp: parseFloat_def)
    then have "stamp (jneg (unsignedLiteral r))"
      by (intro jneg_stamp unsignedLiteral_stamp)
    with True Cons show ?thesis by (simp add: parseFloat_def)
  next
    case False
    with Cons assms show ?thesis
      by (auto simp: parseFloat_def intro: unsignedLiteral_stamp split: if_splits)
  qed
qed

text \<open>
  Numbers out of the range of the doubles: a digit group that spells \<open>10 ^ 309\<close> is
  read as \<open>+Infinity\<close>, and so is the time stamp of its tag; \<open>1e400\<close> is
  \<open>+Infinity\<close>; \<open>1e-400\<close> and \<open>-1e-400\<close> are zero, so that a line starting with
  \<open>-1e-400\<close> passes the test \<open>timestamp >= 0\<close> of the second loop.
\<close>

lemma decimal_snoc: "decimal (ds @ [c]) = 10 * decimal ds + digitVal c"
  by (simp add: decimal_def)

lemma decimal_power10: "decimal (0x31 # replicate n 0x30) = 10 ^ n"
proof (induction n)
  case 0
  show ?case by (simp add: decimal_def digitVal_def)
next
  case (Suc n)
  have "0x31 # replicate (Suc n) (0x30 :: code_unit) = (0x31 # replicate n 0x30) @ [0x30]"
    by (simp add: replicate_append_same)
  then show ?case
    using Suc by (simp only: decimal_snoc) (simp add: digitVal_def)
qed

lemma parseInt_overflow: "parseInt (0x31 # replicate 309 0x30) = PosInf"
proof -
  have t: "takeWhile isDigit (0x31 # replicate 309 (0x30 :: code_unit)) = 0x31 # replicate 309 0x30"
    by (simp add: isDigit_def)
  have "pow2 1024 \<le> of_nat (10 ^ 309)"
    by (simp add: pow2_def)
  then have "number_value (of_nat (10 ^ 309)) = PosInf"
    by (rule number_value_overflow)
  then show ?thesis
    unfolding parseInt_def Let_def t decimal_power10 by simp
qed

lemma stampOf_overflow: "stampOf 0 0 (10 ^ 309) = PosInf"
proof -
  have "pow2 1024 \<le> of_nat (10 ^ 309)"
    by (simp add: pow2_def)
  then have "number_value (of_nat (10 ^ 309)) = PosInf"
    by (rule number_value_overflow)
  moreover have "number_value 0 = Fin 0"
    by (simp add: number_value_def)
  ultimately show ?thesis
    by (simp add: stampOf_def del: of_nat_power)
qed

lemma parseFloat_overflow: "parseFloat (js ''1e400'') = PosInf"
proof -
  have "unsignedDecimal (js ''1e400'') = Some (10 ^ 400)"
    by (simp add: unsignedDecimal_def js_def isDigit_def exponentPart_def decimal_def
          digitVal_def scale10_def Let_def)
  moreover have "pow2 1024 \<le> 10 ^ 400"
    by (simp add: pow2_def)
  moreover have "dropWhile isSpace (js ''1e400'') = js ''1e400''"
    "\<not> isPrefix (js ''Infinity'') (js ''1e400'')"
    by code_simp+
  ultimately show ?thesis
    by (simp add: parseFloat_def unsignedLiteral_def number_value_overflow js_def)
qed

lemma parseFloat_underflow:
  "parseFloat (js ''1e-400'') = Fin 0 \<and> parseFloat (js ''-1e-400'') = Fin 0"
proof -
  have u: "unsignedDecimal (js ''1e-400'') = Some (1 / 10 ^ 400)"
    by (simp add: unsignedDecimal_def js_def isDigit_def exponentPart_def decimal_def
          digitVal_def scale10_def Let_def)
  have s: "(1::rat) / 10 ^ 400 < pow2 (- 1075)"
    by (simp add: pow2_def field_simps)
  have n: "number_value (1 / 10 ^ 400) = Fin 0"
    by (rule number_value_underflow [OF _ s]) simp
  have p: "\<not> isPrefix (js ''Infinity'') (js ''1e-400'')"
    by code_simp
  have l: "unsignedLiteral (js ''1e-400'') = Fin 0"
    using u n p by (simp add: unsignedLiteral_def)
  have "dropWhile isSpace (js ''1e-400'') = js ''1e-400''"
    "dropWhile isSpace (js ''-1e-400'') = 0x2D # js ''1e-400''"
    by code_simp+
  then show ?thesis
    using l by (simp add: parseFloat_def js_def)
qed

lemma plainLine_underflow:
  "plainLine 0 (js ''-1e-400 early'') =
     [\<lparr>timestamp = Fin 0, lyricText = js ''early'', lineNumber = 1\<rparr>]"
proof -
  have "trim (js ''-1e-400 early'') \<noteq> []"
    "split_ws (trim (js ''-1e-400 early'')) = [js ''-1e-400'', js ''early'']"
    by code_simp+
  then show ?thesis
    using parseFloat_underflow by (simp add: plainLine_def isNaN_def)
qed

subsection \<open>The tag pattern\<close>

lemma digitRun_group:
  assumes "digitGroup ds" and "\<not> isDigit c"
  shows "digitRun (ds @ c # r) = Some (ds, c # r)"
proof -
  have all: "\<And>x. x \<in> set ds \<Longrightarrow> isDigit x" and ne: "ds \<noteq> []"
    using assms(1) by (auto simp: digitGroup_def list_all_iff)
  have "takeWhile isDigit (ds @ c # r) = ds"
    using all assms(2) by simp
  moreover have "dropWhile isDigit (ds @ c # r) = c # r"
    using all assms(2) by simp
  ultimately show ?thesis
    using ne by (simp add: digitRun_def)
qed

lemma not_digit [simp]:
  "\<not> isDigit 0x3A" "\<not> isDigit 0x2E" "\<not> isDigit 0x5D" "\<not> isDigit 0x5B"
  by (simp_all add: isDigit_def)

lemma match_at_tag:
  assumes "digitGroup M" "digitGroup S" "digitGroup F"
  shows "match_at (tagText M S F @ T) = Some (M, S, F, afterTag T)"
proof -
  have 1: "digitRun (M @ 0x3A # S @ 0x2E # F @ 0x5D # T) = Some (M, 0x3A # S @ 0x2E # F @ 0x5D # T)"
    using assms(1) by (intro digitRun_group) simp_all
  have 2: "digitRun (S @ 0x2E # F @ 0x5D # T) = Some (S, 0x2E # F @ 0x5D # T)"
    using assms(2) by (intro digitRun_group) simp_all
  have 3: "digitRun (F @ 0x5D # T) = Some (F, 0x5D # T)"
    using assms(3) by (intro digitRun_group) simp_all
  show ?thesis
    by (simp add: match_at_def tagText_def 1 2 3)
qed

lemma digitRun_SomeD:
  "digitRun s = Some (ds, r) \<Longrightarrow> s = ds @ r \<and> digitGroup ds"
  by (auto simp: digitRun_def Let_def digitGroup_def list_all_iff split: if_splits
      dest: set_takeWhileD)

lemma expect_SomeD: "expect c s = Some r \<Longrightarrow> s = c # r"
  by (cases s) (auto split: if_splits)

lemma match_at_SomeD:
  assumes "match_at s = Some (g1, g2, g3, g4)"
  shows "\<exists>r. s = tagText g1 g2 g3 @ r \<and> digitGroup g1 \<and> digitGroup g2 \<and> digitGroup g3
             \<and> g4 = afterTag r"
proof -
  from assms obtain s1 where e1: "expect 0x5B s = Some s1"
    by (auto simp: match_at_def split: Option.bind_splits)
  with assms obtain s2 where d1: "digitRun s1 = Some (g1, s2)"
    by (auto simp: match_at_def split: Option.bind_splits)
  with assms e1 obtain s3 where e2: "expect 0x3A s2 = Some s3"
    by (auto simp: match_at_def split: Option.bind_splits)
  with assms e1 d1 obtain s4 where d2: "digitRun s3 = Some (g2, s4)"
    by (auto simp: match_at_def split: Option.bind_splits)
  with assms e1 d1 e2 obtain s5 where e3: "expect 0x2E s4 = Some s5"
    by (auto simp: match_at_def split: Option.bind_splits)
  with assms e1 d1 e2 d2 obtain s6 where d3: "digitRun s5 = Some (g3, s6)"
    by (auto simp: match_at_def split: Option.bind_splits)
  with assms e1 d1 e2 d2 e3 obtain s7 where e4: "expect 0x5D s6 = Some s7"
    by (auto simp: match_at_def split: Option.bind_splits)
  with assms e1 d1 e2 d2 e3 d3 have g4: "g4 = afterTag s7"
    by (auto simp: match_at_def)
  have "s = tagText g1 g2 g3 @ s7"
    using expect_SomeD [OF e1] expect_SomeD [OF e2] expect_SomeD [OF e3] expect_SomeD [OF e4]
      digitRun_SomeD [OF d1] digitRun_SomeD [OF d2] digitRun_SomeD [OF d3]
    by (simp add: tagText_def)
  then show ?thesis
    using g4 digitRun_SomeD [OF d1] digitRun_SomeD [OF d2] digitRun_SomeD [OF d3] by blast
qed

lemma match_lrc_here: "match_at s = Some g \<Longrightarrow> match_lrc s = Some g"
  by (cases s) (auto simp: match_at_def)

lemma match_at_Nil [simp]: "match_at [] = None"
  by (simp add: match_at_def)

lemma tag_no_bracket:
  assumes "digitGroup g1" "digitGroup g2" "digitGroup g3"
  shows "0x5B \<notin> set (g1 @ 0x3A # g2 @ 0x2E # g3 @ [0x5D])"
proof -
  have "\<And>g. digitGroup g \<Longrightarrow> 0x5B \<notin> set g"
    by (auto simp: digitGroup_def list_all_iff)
  then show ?thesis using assms by simp
qed

lemma match_at_before_bracket:
  assumes "xs \<noteq> []" and "match_at xs = None"
  shows "match_at (xs @ 0x5B # ys) = None"
proof (rule ccontr)
  assume "match_at (xs @ 0x5B # ys) \<noteq> None"
  then obtain g1 g2 g3 g4 where "match_at (xs @ 0x5B # ys) = Some (g1, g2, g3, g4)"
    by (cases "match_at (xs @ 0x5B # ys)") auto
  then obtain r where eq: "xs @ 0x5B # ys = tagText g1 g2 g3 @ r"
    and dg: "digitGroup g1" "digitGroup g2" "digitGroup g3"
    using match_at_SomeD by blast
  from eq obtain us where
    "(xs = tagText g1 g2 g3 @ us \<and> us @ 0x5B # ys = r) \<or>
     (xs @ us = tagText g1 g2 g3 \<and> 0x5B # ys = us @ r)"
    by (auto simp: append_eq_append_conv2)
  then show False
  proof
    assume "xs = tagText g1 g2 g3 @ us \<and> us @ 0x5B # ys = r"
    then have "match_at xs = Some (g1, g2, g3, afterTag us)"
      using match_at_tag [OF dg] by simp
    with assms(2) show False by simp
  next
    assume c: "xs @ us = tagText g1 g2 g3 \<and> 0x5B # ys = us @ r"
    show False
    proof (cases us)
      case Nil
      with c have "match_at xs = Some (g1, g2, g3, afterTag [])"
        using match_at_tag [OF dg, of "[]"] by simp
      with assms(2) show False by simp
    next
      case (Cons u us')
      with c have u: "u = 0x5B" by simp
      from assms(1) obtain x xs' where xs: "xs = x # xs'" by (cases xs) auto
      from c xs Cons u have "xs' @ 0x5B # us' = g1 @ 0x3A # g2 @ 0x2E # g3 @ [0x5D]"
        by (simp add: tagText_def)
      then have "0x5B \<in> set (g1 @ 0x3A # g2 @ 0x2E # g3 @ [0x5D])"
        by (metis in_set_conv_decomp)
      with tag_no_bracket [OF dg] show False by blast
    qed
  qed
qed

lemma match_lrc_after:
  assumes "match_lrc pre = None" and "match_at (0x5B # s) = Some g"
  shows "match_lrc (pre @ 0x5B # s) = Some g"
  using assms(1)
proof (induction pre)
  case Nil
  then show ?case using assms(2) by simp
next
  case (Cons c cs)
  then have "match_at (c # cs) = None" and rest: "match_lrc cs = None"
    by (auto split: option.splits)
  then have "match_at ((c # cs) @ 0x5B # s) = None"
    by (intro match_at_before_bracket) simp_all
  then show ?case
    using Cons.IH [OF rest] by simp
qed

lemma match_lrc_somewhere:
  "match_at s \<noteq> None \<Longrightarrow> match_lrc (pre @ s) \<noteq> None"
proof (induction pre)
  case Nil
  then show ?case using match_lrc_here by (cases "match_at s") auto
next
  case (Cons c cs)
  then show ?case by (auto split: option.splits)
qed

lemma match_lrc_SomeD:
  "match_lrc s = Some (g1, g2, g3, g4) \<Longrightarrow> digitGroup g1 \<and> digitGroup g2 \<and> digitGroup g3"
proof (induction s)
  case Nil
  then show ?case by simp
next
  case (Cons c cs)
  show ?case
  proof (cases "match_at (c # cs)")
    case None
    with Cons show ?thesis by simp
  next
    case (Some g)
    with Cons.prems have "match_at (c # cs) = Some (g1, g2, g3, g4)" by simp
    then show ?thesis using match_at_SomeD by blast
  qed
qed

section \<open>The parser: loops and sort\<close>

lemma lrcLoop_eq:
  "lrcLoop i ls has acc =
     (has \<or> (\<exists>l\<in>set ls. tagged l),
      acc @ concat (map (\<lambda>(j, l). lrcLine j l) (enumerate i ls)))"
proof (induction ls arbitrary: i has acc)
  case Nil
  then show ?case by simp
next
  case (Cons l ls)
  show ?case
  proof (cases "match_lrc (trim l)")
    case None
    then show ?thesis
      by (simp add: Cons.IH lrcLine_def tagged_def Let_def)
  next
    case (Some g)
    then have ne: "trim l \<noteq> []" by auto
    obtain g1 g2 g3 g4 where g: "g = (g1, g2, g3, g4)" by (cases g) auto
    show ?thesis
      using Some ne g by (simp add: Cons.IH lrcLine_def tagged_def Let_def)
  qed
qed

lemma plainLoop_eq:
  "plainLoop i ls acc = acc @ concat (map (\<lambda>(j, l). plainLine j l) (enumerate i ls))"
proof (induction ls arbitrary: i acc)
  case Nil
  then show ?case by simp
next
  case (Cons l ls)
  show ?case
    by (simp add: Cons.IH plainLine_def Let_def)
qed

lemma parseLyrics_tagged:
  assumes "\<exists>l\<in>set (split_nl content). tagged l"
  shows "parseLyrics content =
     array_sort compareFn (concat (map (\<lambda>(j, l). lrcLine j l) (enumerate 0 (split_nl content))))"
proof -
  show ?thesis
    using assms by (auto simp: parseLyrics_def Let_def lrcLoop_eq)
qed

lemma lrcLine_untagged: "\<not> tagged l \<Longrightarrow> lrcLine i l = []"
  by (cases "match_lrc (trim l)") (simp_all add: tagged_def lrcLine_def)

lemma lrcLines_untagged:
  "\<forall>l\<in>set ls. \<not> tagged l \<Longrightarrow> concat (map (\<lambda>(j, l). lrcLine j l) (enumerate i ls)) = []"
  by (induction ls arbitrary: i) (simp_all add: lrcLine_untagged)

lemma parseLyrics_plain:
  "\<forall>l\<in>set (split_nl content). \<not> tagged l \<Longrightarrow>
   parseLyrics content =
     array_sort compareFn (concat (map (\<lambda>(j, l). plainLine j l) (enumerate 0 (split_nl content))))"
  by (simp add: parseLyrics_def lrcLoop_eq plainLoop_eq lrcLines_untagged Let_def)


subsection \<open>The sort\<close>

lemma jge_trans: "jge a b \<Longrightarrow> jge b c \<Longrightarrow> jge a c"
  by (cases a; cases b; cases c) auto

lemma jge_total: "a \<noteq> NaN \<Longrightarrow> b \<noteq> NaN \<Longrightarrow> jge a b \<or> jge b a"
  by (cases a; cases b) auto

lemma jge_refl: "a \<noteq> NaN \<Longrightarrow> jge a a"
  by (cases a) auto

lemma stamp_not_NaN: "stamp v \<Longrightarrow> v \<noteq> NaN"
  by (auto simp: stamp_def)

lemma positive_jsub:
  assumes "stamp a" "stamp b"
  shows "positive (jsub a b) \<longleftrightarrow> \<not> jge b a"
proof (cases a)
  case (Fin x)
  show ?thesis
  proof (cases b)
    case (Fin y)
    with \<open>a = Fin x\<close> assms have "onGrid x" "onGrid y" by (simp_all add: stamp_def)
    then show ?thesis
      using \<open>a = Fin x\<close> Fin number_value_diff_positive [of x y] by auto
  qed (use assms Fin in \<open>simp_all add: stamp_def\<close>)
next
  case PosInf
  then show ?thesis using assms by (cases b) (simp_all add: stamp_def)
next
  case NegInf
  then show ?thesis using assms by (cases b) (simp_all add: stamp_def)
qed (use assms in \<open>simp_all add: stamp_def\<close>)

lemma positive_compareFn:
  "stamp (timestamp x) \<Longrightarrow> stamp (timestamp y) \<Longrightarrow>
   positive (compareFn x y) \<longleftrightarrow> \<not> jge (timestamp y) (timestamp x)"
  by (simp add: compareFn_def positive_jsub)

lemma set_insert_cmp: "set (insert_cmp cmp x ys) = insert x (set ys)"
  by (induction ys) auto

lemma mset_insert_cmp: "mset (insert_cmp cmp x ys) = add_mset x (mset ys)"
  by (induction ys) auto

lemma mset_array_sort: "mset (array_sort cmp xs) = mset xs"
  by (induction xs) (simp_all add: array_sort_def mset_insert_cmp)

lemma set_array_sort: "set (array_sort cmp xs) = set xs"
  using mset_array_sort [of cmp xs] by (metis set_mset_mset)

lemma length_array_sort: "length (array_sort cmp xs) = length xs"
  using mset_array_sort [of cmp xs] by (metis size_mset)

lemma ordered_insert_cmp:
  assumes "sorted_wrt ordered ys"
    and "\<forall>y\<in>set ys. lineNumber x < lineNumber y"
    and "stamp (timestamp x)" and "\<forall>y\<in>set ys. stamp (timestamp y)"
  shows "sorted_wrt ordered (insert_cmp compareFn x ys)"
  using assms
proof (induction ys)
  case Nil
  then show ?case by simp
next
  case (Cons y ys)
  have sy: "stamp (timestamp y)" using Cons.prems(4) by simp
  have nx: "timestamp x \<noteq> NaN" using Cons.prems(3) by (rule stamp_not_NaN)
  have ny: "timestamp y \<noteq> NaN" using sy by (rule stamp_not_NaN)
  show ?case
  proof (cases "positive (compareFn x y)")
    case True
    then have gt: "\<not> jge (timestamp y) (timestamp x)"
      using positive_compareFn [OF Cons.prems(3) sy] by simp
    then have "jge (timestamp x) (timestamp y)"
      using jge_total [OF nx ny] by blast
    moreover have "timestamp y \<noteq> timestamp x"
      using gt jge_refl [OF ny] by auto
    ultimately have yx: "ordered y x" by (simp add: ordered_def)
    have "sorted_wrt ordered (insert_cmp compareFn x ys)"
      using Cons.prems by (intro Cons.IH) simp_all
    then show ?thesis
      using True Cons.prems(1) yx by (simp add: set_insert_cmp)
  next
    case False
    then have le: "jge (timestamp y) (timestamp x)"
      using positive_compareFn [OF Cons.prems(3) sy] by simp
    have xy: "ordered x y"
      using le Cons.prems(2) by (simp add: ordered_def)
    have "ordered x z" if "z \<in> set ys" for z
    proof -
      have "ordered y z" using Cons.prems(1) that by simp
      then have "jge (timestamp z) (timestamp y)" by (simp add: ordered_def)
      then have "jge (timestamp z) (timestamp x)" using le jge_trans by blast
      then show ?thesis using Cons.prems(2) that by (simp add: ordered_def)
    qed
    then show ?thesis
      using False xy Cons.prems(1) by simp
  qed
qed

lemma ordered_array_sort:
  assumes "sorted_wrt (\<lambda>a b. lineNumber a < lineNumber b) xs"
    and "\<forall>x\<in>set xs. stamp (timestamp x)"
  shows "sorted_wrt ordered (array_sort compareFn xs)"
  using assms
proof (induction xs)
  case Nil
  then show ?case by (simp add: array_sort_def)
next
  case (Cons x xs)
  have ih: "sorted_wrt ordered (array_sort compareFn xs)"
    using Cons.prems by (intro Cons.IH) simp_all
  have "sorted_wrt ordered (insert_cmp compareFn x (array_sort compareFn xs))"
    using ih Cons.prems by (intro ordered_insert_cmp) (simp_all add: set_array_sort)
  then show ?case by (simp add: array_sort_def)
qed

subsection \<open>The entries before the sort\<close>

lemma lineNumbers_increase:
  assumes "\<And>j l x. x \<in> set (f j l) \<Longrightarrow> lineNumber x = j + 1"
    and "\<And>j l. length (f j l) \<le> 1"
  shows "sorted_wrt (\<lambda>a b. lineNumber a < lineNumber b)
           (concat (map (\<lambda>(j, l). f j l) (enumerate i ls)))
         \<and> (\<forall>x\<in>set (concat (map (\<lambda>(j, l). f j l) (enumerate i ls))). i < lineNumber x)"
proof (induction ls arbitrary: i)
  case Nil
  then show ?case by simp
next
  case (Cons l ls)
  define rest where "rest = concat (map (\<lambda>(j, l). f j l) (enumerate (Suc i) ls))"
  have split: "concat (map (\<lambda>(j, l). f j l) (enumerate i (l # ls))) = f i l @ rest"
    by (simp add: rest_def)
  have one: "sorted_wrt (\<lambda>a b. lineNumber a < lineNumber b) (f i l)"
    using assms(2) [of i l] by (cases "f i l") auto
  have here: "\<forall>x\<in>set (f i l). lineNumber x = i + 1"
    using assms(1) by blast
  have later: "sorted_wrt (\<lambda>a b. lineNumber a < lineNumber b) rest"
    and above: "\<forall>x\<in>set rest. Suc i < lineNumber x"
    using Cons.IH [of "Suc i"] unfolding rest_def by blast+
  have "sorted_wrt (\<lambda>a b. lineNumber a < lineNumber b) (f i l @ rest)"
    using one here later above by (auto simp: sorted_wrt_append)
  moreover have "\<forall>x\<in>set (f i l @ rest). i < lineNumber x"
    using here above by auto
  ultimately show ?case
    unfolding split by blast
qed

lemma lrcLine_props:
  "x \<in> set (lrcLine j l) \<Longrightarrow> lineNumber x = j + 1 \<and> stamp (timestamp x)"
  "length (lrcLine j l) \<le> 1"
proof -
  show "length (lrcLine j l) \<le> 1"
    by (auto simp: lrcLine_def split: option.splits if_splits)
  assume x: "x \<in> set (lrcLine j l)"
  then obtain g where g: "match_lrc (trim l) = Some g"
    by (cases "match_lrc (trim l)") (auto simp: lrcLine_def)
  obtain g1 g2 g3 g4 where gs: "g = (g1, g2, g3, g4)" by (cases g) auto
  have "digitGroup g1 \<and> digitGroup g2 \<and> digitGroup g3"
    using g gs match_lrc_SomeD by blast
  then have "stamp (jadd (jadd (jmul (parseInt g1) (Fin 60)) (parseInt g2))
                  (jdiv (parseInt g3) (Fin 100)))"
    using tag_stamp by blast
  then show "lineNumber x = j + 1 \<and> stamp (timestamp x)"
    using x g gs by (auto simp: lrcLine_def split: if_splits)
qed

lemma plainLine_props:
  "x \<in> set (plainLine j l) \<Longrightarrow> lineNumber x = j + 1 \<and> stamp (timestamp x)"
  "length (plainLine j l) \<le> 1"
  by (auto simp: plainLine_def Let_def isNaN_def parseFloat_stamp split: if_splits)

lemma parseLyrics_cases:
  "parseLyrics content =
     array_sort compareFn
       (concat (map (\<lambda>(j, l). (if \<exists>l\<in>set (split_nl content). tagged l
                                then lrcLine j l else plainLine j l))
          (enumerate 0 (split_nl content))))"
  by (cases "\<exists>l\<in>set (split_nl content). tagged l")
     (simp_all add: parseLyrics_tagged parseLyrics_plain)

text \<open>
  C5: for every input string the result of \<open>parseLyrics\<close> is in ascending order of time
  stamp, and entries with equal time stamps are in the order of their source lines.
\<close>

theorem parseLyrics_sorted:
  "sorted_wrt ordered (parseLyrics content)"
proof -
  let ?f = "\<lambda>j l. if \<exists>l\<in>set (split_nl content). tagged l then lrcLine j l else plainLine j l"
  let ?xs = "concat (map (\<lambda>(j, l). ?f j l) (enumerate 0 (split_nl content)))"
  have 1: "\<And>j l x. x \<in> set (?f j l) \<Longrightarrow> lineNumber x = j + 1"
    using lrcLine_props(1) plainLine_props(1) by (auto split: if_splits)
  have 2: "\<And>j l. length (?f j l) \<le> 1"
    using lrcLine_props(2) plainLine_props(2) by simp
  have "sorted_wrt (\<lambda>a b. lineNumber a < lineNumber b) ?xs
        \<and> (\<forall>x\<in>set ?xs. 0 < lineNumber x)"
    by (rule lineNumbers_increase [where f = ?f]) (use 1 2 in blast)+
  then have inc: "sorted_wrt (\<lambda>a b. lineNumber a < lineNumber b) ?xs" ..
  have "\<forall>x\<in>set ?xs. stamp (timestamp x)"
    using lrcLine_props(1) plainLine_props(1) by (auto split: if_splits)
  with inc have "sorted_wrt ordered (array_sort compareFn ?xs)"
    by (rule ordered_array_sort)
  then show ?thesis by (simp only: parseLyrics_cases)
qed


subsection \<open>The entries of the two modes\<close>

lemma set_lrcLines:
  "set (concat (map (\<lambda>(j, l). lrcLine j l) (enumerate 0 ls))) =
     {\<lparr>timestamp = jadd (jadd (jmul (parseInt g1) (Fin 60)) (parseInt g2))
                     (jdiv (parseInt g3) (Fin 100)),
       lyricText = trim g4, lineNumber = i + 1\<rparr> | i g1 g2 g3 g4.
      i < length ls \<and> match_lrc (trim (ls ! i)) = Some (g1, g2, g3, g4) \<and> trim g4 \<noteq> []}"
  (is "?L = ?R")
proof (intro set_eqI iffI)
  fix x
  assume "x \<in> ?L"
  then obtain j l where jl: "(j, l) \<in> set (enumerate 0 ls)" and x: "x \<in> set (lrcLine j l)"
    by auto
  from jl have j: "j < length ls" and l: "l = ls ! j"
    by (auto simp: in_set_enumerate_eq)
  from x obtain g where g: "match_lrc (trim l) = Some g"
    by (cases "match_lrc (trim l)") (auto simp: lrcLine_def)
  obtain g1 g2 g3 g4 where gs: "g = (g1, g2, g3, g4)" by (cases g) auto
  from x g gs have "trim g4 \<noteq> []"
    and "x = \<lparr>timestamp = jadd (jadd (jmul (parseInt g1) (Fin 60)) (parseInt g2))
                     (jdiv (parseInt g3) (Fin 100)),
              lyricText = trim g4, lineNumber = j + 1\<rparr>"
    by (auto simp: lrcLine_def split: if_splits)
  with j l g gs show "x \<in> ?R" by blast
next
  fix x
  assume "x \<in> ?R"
  then obtain i g1 g2 g3 g4 where i: "i < length ls"
    and m: "match_lrc (trim (ls ! i)) = Some (g1, g2, g3, g4)" and t: "trim g4 \<noteq> []"
    and x: "x = \<lparr>timestamp = jadd (jadd (jmul (parseInt g1) (Fin 60)) (parseInt g2))
                     (jdiv (parseInt g3) (Fin 100)),
              lyricText = trim g4, lineNumber = i + 1\<rparr>"
    by blast
  have "(i, ls ! i) \<in> set (enumerate 0 ls)"
    using i by (simp add: in_set_enumerate_eq)
  moreover have "x \<in> set (lrcLine i (ls ! i))"
    using m t x by (simp add: lrcLine_def)
  ultimately show "x \<in> ?L" by force
qed

lemma set_plainLines:
  "set (concat (map (\<lambda>(j, l). plainLine j l) (enumerate 0 ls))) =
     {\<lparr>timestamp = parseFloat (hd parts), lyricText = join_sp (tl parts),
       lineNumber = i + 1\<rparr> | i parts.
      i < length ls \<and> trim (ls ! i) \<noteq> [] \<and> parts = split_ws (trim (ls ! i)) \<and>
      2 \<le> length parts \<and> \<not> isNaN (parseFloat (hd parts)) \<and>
      jge (parseFloat (hd parts)) (Fin 0)}"
  (is "?L = ?R")
proof (intro set_eqI iffI)
  fix x
  assume "x \<in> ?L"
  then obtain j l where jl: "(j, l) \<in> set (enumerate 0 ls)" and x: "x \<in> set (plainLine j l)"
    by auto
  from jl have j: "j < length ls" and l: "l = ls ! j"
    by (auto simp: in_set_enumerate_eq)
  from x j l show "x \<in> ?R"
    by (auto simp: plainLine_def Let_def split: if_splits)
next
  fix x
  assume "x \<in> ?R"
  then obtain i where i: "i < length ls" and x: "x \<in> set (plainLine i (ls ! i))"
    by (auto simp: plainLine_def Let_def)
  have "(i, ls ! i) \<in> set (enumerate 0 ls)"
    using i by (simp add: in_set_enumerate_eq)
  with x show "x \<in> ?L" by force
qed

lemma distinct_lineNumbers:
  "sorted_wrt (\<lambda>a b. lineNumber a < lineNumber b) xs \<Longrightarrow> distinct (map lineNumber xs)"
  by (induction xs) auto

lemma lrcLines_increase:
  "sorted_wrt (\<lambda>a b. lineNumber a < lineNumber b)
     (concat (map (\<lambda>(j, l). lrcLine j l) (enumerate 0 ls)))"
proof -
  have "sorted_wrt (\<lambda>a b. lineNumber a < lineNumber b)
          (concat (map (\<lambda>(j, l). lrcLine j l) (enumerate 0 ls)))
        \<and> (\<forall>x\<in>set (concat (map (\<lambda>(j, l). lrcLine j l) (enumerate 0 ls))). 0 < lineNumber x)"
    by (rule lineNumbers_increase [where f = lrcLine]) (use lrcLine_props in blast)+
  then show ?thesis ..
qed

lemma plainLines_increase:
  "sorted_wrt (\<lambda>a b. lineNumber a < lineNumber b)
     (concat (map (\<lambda>(j, l). plainLine j l) (enumerate 0 ls)))"
proof -
  have "sorted_wrt (\<lambda>a b. lineNumber a < lineNumber b)
          (concat (map (\<lambda>(j, l). plainLine j l) (enumerate 0 ls)))
        \<and> (\<forall>x\<in>set (concat (map (\<lambda>(j, l). plainLine j l) (enumerate 0 ls))). 0 < lineNumber x)"
    by (rule lineNumbers_increase [where f = plainLine]) (use plainLine_props in blast)+
  then show ?thesis ..
qed

lemma distinct_array_sort:
  "distinct (map lineNumber xs) \<Longrightarrow> distinct (map lineNumber (array_sort cmp xs))"
proof -
  assume d: "distinct (map lineNumber xs)"
  have "mset (map lineNumber (array_sort cmp xs)) = mset (map lineNumber xs)"
    by (simp add: mset_array_sort)
  then show ?thesis
    using d mset_eq_imp_distinct_iff by blast
qed

text \<open>
  C3: when some line of the input matches the tag pattern, the result consists of one
  entry for each line that matches the pattern with a non-empty trimmed group 4, and
  of nothing else: the other lines add nothing and the fallback loop does not run.
\<close>

theorem parseLyrics_tag_mode:
  assumes "\<exists>l\<in>set (split_nl content). tagged l"
  shows "set (parseLyrics content) =
           {\<lparr>timestamp = jadd (jadd (jmul (parseInt g1) (Fin 60)) (parseInt g2))
                     (jdiv (parseInt g3) (Fin 100)),
             lyricText = trim g4, lineNumber = i + 1\<rparr> | i g1 g2 g3 g4.
            i < length (split_nl content) \<and>
            match_lrc (trim (split_nl content ! i)) = Some (g1, g2, g3, g4) \<and> trim g4 \<noteq> []}
         \<and> distinct (map lineNumber (parseLyrics content))"
  using assms
  by (simp only: parseLyrics_tagged set_array_sort set_lrcLines
        distinct_array_sort [OF distinct_lineNumbers [OF lrcLines_increase]] simp_thms)

lemma in_plain_result:
  assumes "\<forall>l\<in>set (split_nl content). \<not> tagged l"
  shows "x \<in> set (parseLyrics content) \<and> lineNumber x = i + 1 \<longleftrightarrow>
           i < length (split_nl content) \<and> x \<in> set (plainLine i (split_nl content ! i))"
proof
  assume a: "x \<in> set (parseLyrics content) \<and> lineNumber x = i + 1"
  then obtain j l where jl: "(j, l) \<in> set (enumerate 0 (split_nl content))"
    and x: "x \<in> set (plainLine j l)"
    by (auto simp: parseLyrics_plain [OF assms] set_array_sort)
  from x a have "j = i" using plainLine_props(1) by fastforce
  with jl x show "i < length (split_nl content) \<and> x \<in> set (plainLine i (split_nl content ! i))"
    by (auto simp: in_set_enumerate_eq)
next
  assume a: "i < length (split_nl content) \<and> x \<in> set (plainLine i (split_nl content ! i))"
  then have "(i, split_nl content ! i) \<in> set (enumerate 0 (split_nl content))"
    by (simp add: in_set_enumerate_eq)
  with a have "x \<in> set (parseLyrics content)"
    by (force simp: parseLyrics_plain [OF assms] set_array_sort)
  with a plainLine_props(1) show "x \<in> set (parseLyrics content) \<and> lineNumber x = i + 1"
    by blast
qed

lemma digit_not_space: "isDigit c \<Longrightarrow> \<not> isSpace c"
proof
  assume d: "isDigit c" and s: "isSpace c"
  from d have lo: "0x30 \<le> c" and hi: "c \<le> 0x39" by (simp_all add: isDigit_def)
  from s consider "c = 0x09" | "c = 0x0B" | "c = 0x0C" | "c = 0x20" | "c = 0xA0" | "c = 0x1680"
    | "0x2000 \<le> c" | "c = 0x202F" | "c = 0x205F" | "c = 0x3000" | "c = 0xFEFF"
    | "c = 0x0A" | "c = 0x0D" | "c = 0x2028" | "c = 0x2029"
    by (auto simp: isSpace_def isWhiteSpace_def isLineTerminator_def)
  then show False
  proof cases
    case 7
    from 7 hi have "(0x2000 :: code_unit) \<le> 0x39" by (rule order_trans)
    then show False by simp
  qed (use lo hi in simp_all)
qed

lemma pow2_min_le_1: "pow2 (- 1074) \<le> 1"
  using pow2_mono [of "- 1074" 0] by (simp add: pow2_def)

lemma parseFloat_minus_digits:
  assumes "digitGroup ds" and "0 < decimal ds"
  shows "\<not> jge (parseFloat (0x2D # ds)) (Fin 0)"
proof -
  from assms(1) obtain d ds' where ds: "ds = d # ds'" and all: "\<forall>c\<in>set ds. isDigit c"
    by (cases ds) (auto simp: digitGroup_def list_all_iff)
  have "d \<noteq> 0x49" using all ds by (auto simp: isDigit_def)
  then have np: "\<not> isPrefix (js ''Infinity'') ds"
    by (simp add: isPrefix_def ds js_def)
  have tw: "takeWhile isDigit ds = ds" "dropWhile isDigit ds = []"
    using all by simp_all
  have "unsignedDecimal ds = Some (of_nat (decimal ds))"
    unfolding unsignedDecimal_def Let_def tw using assms(1) by (simp add: digitGroup_def)
  with np have lit: "unsignedLiteral ds = number_value (of_nat (decimal ds))"
    by (simp add: unsignedLiteral_def)
  have "(1::rat) \<le> of_nat (decimal ds)" using assms(2) by simp
  then have "pow2 (- 1074) \<le> of_nat (decimal ds)"
    using pow2_min_le_1 by (rule order_trans [rotated])
  then have pos: "positive (number_value (of_nat (decimal ds)))"
    by (rule number_value_positive)
  have "\<not> isSpace 0x2D"
    by (simp add: isSpace_def isWhiteSpace_def isLineTerminator_def)
  then have "parseFloat (0x2D # ds) = jneg (number_value (of_nat (decimal ds)))"
    by (simp add: parseFloat_def lit)
  then show ?thesis
    using pos by (cases "number_value (of_nat (decimal ds))") simp_all
qed

text \<open>
  C6, as claimed: without a tag line, a line gives an entry if and only if it has at
  least two pieces and its first piece is a valid number that is not negative. Here the
  first piece \<open>7up\<close> is not a number, and the line gives an entry with time stamp 7.
\<close>

theorem parseLyrics_fallback_counterexample:
  "split_nl (js ''7up hello'') = [js ''7up hello''] \<and>
   \<not> tagged (js ''7up hello'') \<and>
   split_ws (trim (js ''7up hello'')) = [js ''7up'', js ''hello''] \<and>
   \<not> spec_valid_number (js ''7up'') \<and>
   parseLyrics (js ''7up hello'') =
     [\<lparr>timestamp = Fin 7, lyricText = js ''hello'', lineNumber = 1\<rparr>]"
  by code_simp

text \<open>
  C6, amended: when no line of the input matches the tag pattern, the result consists
  of one entry for each non-blank line that splits at white space into at least two
  pieces and for whose first piece \<open>parseFloat\<close> returns a number that is not NaN and
  is at least 0, with that number as time stamp and the other pieces joined by single
  spaces as text, and of nothing else. \<open>parseFloat\<close> reads the longest prefix of the
  piece that is a decimal literal, whatever follows it; a piece that is a minus sign and
  the digits of a positive integer is negative, and its line gives no entry.
\<close>

theorem parseLyrics_fallback_mode:
  assumes "\<forall>l\<in>set (split_nl content). \<not> tagged l"
  shows "set (parseLyrics content) =
           {\<lparr>timestamp = parseFloat (hd parts), lyricText = join_sp (tl parts),
             lineNumber = i + 1\<rparr> | i parts.
            i < length (split_nl content) \<and> trim (split_nl content ! i) \<noteq> [] \<and>
            parts = split_ws (trim (split_nl content ! i)) \<and>
            2 \<le> length parts \<and> \<not> isNaN (parseFloat (hd parts)) \<and>
            jge (parseFloat (hd parts)) (Fin 0)}
         \<and> distinct (map lineNumber (parseLyrics content))
         \<and> (\<forall>i ds. i < length (split_nl content) \<and>
               hd (split_ws (trim (split_nl content ! i))) = 0x2D # ds \<and>
               digitGroup ds \<and> 0 < decimal ds \<longrightarrow>
               (\<forall>x\<in>set (parseLyrics content). lineNumber x \<noteq> i + 1))"
proof (intro conjI allI impI ballI)
  show "set (parseLyrics content) =
           {\<lparr>timestamp = parseFloat (hd parts), lyricText = join_sp (tl parts),
             lineNumber = i + 1\<rparr> | i parts.
            i < length (split_nl content) \<and> trim (split_nl content ! i) \<noteq> [] \<and>
            parts = split_ws (trim (split_nl content ! i)) \<and>
            2 \<le> length parts \<and> \<not> isNaN (parseFloat (hd parts)) \<and>
            jge (parseFloat (hd parts)) (Fin 0)}"
    using assms by (simp only: parseLyrics_plain set_array_sort set_plainLines)
  show "distinct (map lineNumber (parseLyrics content))"
    using assms
    by (simp only: parseLyrics_plain
          distinct_array_sort [OF distinct_lineNumbers [OF plainLines_increase]])
next
  fix i ds x
  assume a: "i < length (split_nl content) \<and>
               hd (split_ws (trim (split_nl content ! i))) = 0x2D # ds \<and>
               digitGroup ds \<and> 0 < decimal ds"
    and x: "x \<in> set (parseLyrics content)"
  show "lineNumber x \<noteq> i + 1"
  proof
    assume "lineNumber x = i + 1"
    with x have "x \<in> set (plainLine i (split_nl content ! i))"
      using in_plain_result [OF assms, of x i] by blast
    then have "jge (parseFloat (hd (split_ws (trim (split_nl content ! i))))) (Fin 0)"
      by (auto simp: plainLine_def Let_def split: if_splits)
    with a parseFloat_minus_digits show False by simp
  qed
qed

subsection \<open>Lines\<close>

lemma split_nl_nonempty: "split_nl s \<noteq> []"
  by (induction s) (auto split: list.splits)

lemma split_nl_subset: "l \<in> set (split_nl s) \<Longrightarrow> set l \<subseteq> set s"
proof (induction s arbitrary: l)
  case Nil
  then show ?case by simp
next
  case (Cons c cs)
  show ?case
  proof (cases "c = 0x0A")
    case True
    then show ?thesis using Cons by auto
  next
    case False
    obtain l0 ls where sp: "split_nl cs = l0 # ls"
      using split_nl_nonempty [of cs] by (cases "split_nl cs") auto
    with False Cons.prems have "l = c # l0 \<or> l \<in> set ls" by auto
    then show ?thesis
      using Cons.IH [of l0] Cons.IH [of l] sp by auto
  qed
qed

lemma trim_spaces:
  assumes "\<forall>c\<in>set l. isSpace c"
  shows "trim l = []"
proof -
  have "dropWhile isSpace l = []"
    using assms by simp
  then show ?thesis
    unfolding trim_def by (simp only: rev.simps dropWhile.simps)
qed

lemma length_entries:
  assumes "\<And>j l. length (f j l) \<le> 1"
  shows "length (concat (map (\<lambda>(j, l). f j l) (enumerate i ls))) \<le> length ls"
proof (induction ls arbitrary: i)
  case Nil
  then show ?case by simp
next
  case (Cons l ls)
  show ?case
    using Cons.IH [of "Suc i"] assms [of i l] by simp
qed

lemma entries_empty:
  assumes "\<And>j l. l \<in> set ls \<Longrightarrow> f j l = []"
  shows "concat (map (\<lambda>(j, l). f j l) (enumerate i ls)) = []"
  using assms by (induction ls arbitrary: i) simp_all

lemma array_sort_Nil: "array_sort cmp [] = []"
  by (simp add: array_sort_def)

text \<open>
  C7: \<open>parseLyrics\<close> returns a sequence for every input string, with at most one
  entry per line; the sequence is empty for the empty string, for an input of white
  space only, and for an input none of whose lines can be parsed.
\<close>

theorem parseLyrics_total:
  "length (parseLyrics content) \<le> length (split_nl content) \<and>
   parseLyrics [] = [] \<and>
   ((\<forall>c\<in>set content. isSpace c) \<longrightarrow> parseLyrics content = []) \<and>
   ((\<forall>l\<in>set (split_nl content). \<not> tagged l \<and> length (split_ws (trim l)) < 2) \<longrightarrow>
      parseLyrics content = [])"
proof (intro conjI impI)
  let ?f = "\<lambda>j l. if \<exists>l\<in>set (split_nl content). tagged l then lrcLine j l else plainLine j l"
  have "\<And>j l. length (?f j l) \<le> 1"
    using lrcLine_props(2) plainLine_props(2) by simp
  then have "length (concat (map (\<lambda>(j, l). ?f j l) (enumerate 0 (split_nl content))))
               \<le> length (split_nl content)"
    by (rule length_entries)
  then show "length (parseLyrics content) \<le> length (split_nl content)"
    by (simp only: parseLyrics_cases length_array_sort)
next
  show "parseLyrics [] = []"
    by (simp add: parseLyrics_def trim_def array_sort_def)
next
  assume ws: "\<forall>c\<in>set content. isSpace c"
  have blank: "trim l = []" if "l \<in> set (split_nl content)" for l
    using split_nl_subset [OF that] ws by (intro trim_spaces) blast
  have nt: "\<forall>l\<in>set (split_nl content). \<not> tagged l"
    using blank by (simp add: tagged_def)
  have e: "concat (map (\<lambda>(j, l). plainLine j l) (enumerate 0 (split_nl content))) = []"
    by (rule entries_empty) (simp add: plainLine_def blank)
  have "parseLyrics content =
          array_sort compareFn
            (concat (map (\<lambda>(j, l). plainLine j l) (enumerate 0 (split_nl content))))"
    using nt by (rule parseLyrics_plain)
  then show "parseLyrics content = []"
    by (simp only: e array_sort_Nil)
next
  assume a: "\<forall>l\<in>set (split_nl content). \<not> tagged l \<and> length (split_ws (trim l)) < 2"
  have e: "concat (map (\<lambda>(j, l). plainLine j l) (enumerate 0 (split_nl content))) = []"
    by (rule entries_empty) (use a in \<open>fastforce simp: plainLine_def Let_def\<close>)
  have "parseLyrics content =
          array_sort compareFn
            (concat (map (\<lambda>(j, l). plainLine j l) (enumerate 0 (split_nl content))))"
    by (rule parseLyrics_plain) (use a in blast)
  then show "parseLyrics content = []"
    by (simp only: e array_sort_Nil)
qed

subsection \<open>Tagged lines\<close>

lemma tagText_Cons: "tagText M S F @ T = 0x5B # (M @ 0x3A # S @ 0x2E # F @ 0x5D # T)"
  by (simp add: tagText_def)

lemma tag_line:
  assumes "trim l = pre @ tagText M S F @ T"
    and "digitGroup M" "digitGroup S" "digitGroup F"
    and "match_lrc pre = None"
  shows "match_lrc (trim l) = Some (M, S, F, afterTag T)"
proof -
  have "match_at (0x5B # (M @ 0x3A # S @ 0x2E # F @ 0x5D # T)) = Some (M, S, F, afterTag T)"
    using match_at_tag [OF assms(2-4), of T] by (simp only: tagText_Cons)
  then have "match_lrc (pre @ 0x5B # (M @ 0x3A # S @ 0x2E # F @ 0x5D # T)) =
               Some (M, S, F, afterTag T)"
    by (rule match_lrc_after [OF assms(5)])
  then show ?thesis
    by (simp only: assms(1) tagText_Cons)
qed

lemma tag_line_entry:
  assumes "trim l = pre @ tagText M S F @ T"
    and "digitGroup M" "digitGroup S" "digitGroup F"
    and "match_lrc pre = None"
  shows "lrcLine i l =
           (if trim (afterTag T) \<noteq> []
            then [\<lparr>timestamp = stampOf (decimal M) (decimal S) (decimal F),
                   lyricText = trim (afterTag T), lineNumber = i + 1\<rparr>]
            else [])"
  using tag_line [OF assms] tag_stamp_of [OF assms(2-4)] by (simp add: lrcLine_def)

lemma tagged_somewhere:
  assumes "trim l = pre @ tagText M S F @ T"
    and "digitGroup M" "digitGroup S" "digitGroup F"
  shows "tagged l"
proof -
  have "match_at (tagText M S F @ T) \<noteq> None"
    using match_at_tag [OF assms(2-4), of T] by simp
  then have "match_lrc (pre @ tagText M S F @ T) \<noteq> None"
    by (rule match_lrc_somewhere)
  then show ?thesis
    by (cases "match_lrc (trim l)") (simp_all add: tagged_def assms(1))
qed

lemma in_tagged_result:
  assumes "\<exists>l\<in>set (split_nl content). tagged l"
  shows "x \<in> set (parseLyrics content) \<and> lineNumber x = i + 1 \<longleftrightarrow>
           i < length (split_nl content) \<and> x \<in> set (lrcLine i (split_nl content ! i))"
proof
  assume a: "x \<in> set (parseLyrics content) \<and> lineNumber x = i + 1"
  then obtain j l where jl: "(j, l) \<in> set (enumerate 0 (split_nl content))"
    and x: "x \<in> set (lrcLine j l)"
    by (auto simp: parseLyrics_tagged [OF assms] set_array_sort)
  from x a have "j = i" using lrcLine_props(1) by fastforce
  with jl x show "i < length (split_nl content) \<and> x \<in> set (lrcLine i (split_nl content ! i))"
    by (auto simp: in_set_enumerate_eq)
next
  assume a: "i < length (split_nl content) \<and> x \<in> set (lrcLine i (split_nl content ! i))"
  then have "(i, split_nl content ! i) \<in> set (enumerate 0 (split_nl content))"
    by (simp add: in_set_enumerate_eq)
  with a have "x \<in> set (parseLyrics content)"
    by (force simp: parseLyrics_tagged [OF assms] set_array_sort)
  with a lrcLine_props(1) show "x \<in> set (parseLyrics content) \<and> lineNumber x = i + 1"
    by blast
qed


text \<open>
  C1: a line of the input that reads \<open>[M:S.F]\<close> followed by a text, with digit groups
  \<open>M\<close>, \<open>S\<close> and \<open>F\<close> of any lengths, gives an entry whose time stamp is the
  value of \<open>M * 60 + S + F / 100\<close> in the arithmetic of JavaScript numbers, with \<open>F\<close>
  taken as the integer its digits spell; and no entry of that line has another time
  stamp.
\<close>

theorem tag_timestamp:
  assumes "i < length (split_nl content)"
    and "trim (split_nl content ! i) = tagText M S F @ T"
    and "digitGroup M" and "digitGroup S" and "digitGroup F"
    and "trim (afterTag T) \<noteq> []"
  shows "\<lparr>timestamp = stampOf (decimal M) (decimal S) (decimal F),
          lyricText = trim (afterTag T), lineNumber = i + 1\<rparr> \<in> set (parseLyrics content) \<and>
         (\<forall>x\<in>set (parseLyrics content). lineNumber x = i + 1 \<longrightarrow>
            timestamp x = stampOf (decimal M) (decimal S) (decimal F))"
proof -
  let ?l = "split_nl content ! i"
  have t: "trim ?l = [] @ tagText M S F @ T" using assms(2) by simp
  have "tagged ?l" using t assms(3-5) by (rule tagged_somewhere)
  then have mode: "\<exists>l\<in>set (split_nl content). tagged l"
    using assms(1) nth_mem by blast
  have entry: "lrcLine i ?l =
      [\<lparr>timestamp = stampOf (decimal M) (decimal S) (decimal F),
        lyricText = trim (afterTag T), lineNumber = i + 1\<rparr>]"
    using tag_line_entry [OF t assms(3-5), of i] assms(6) by simp
  let ?x = "\<lparr>timestamp = stampOf (decimal M) (decimal S) (decimal F),
          lyricText = trim (afterTag T), lineNumber = i + 1\<rparr>"
  have "?x \<in> set (lrcLine i ?l)" using entry by simp
  then have here: "?x \<in> set (parseLyrics content)"
    using in_tagged_result [OF mode, of ?x i] assms(1) by blast
  have only: "timestamp x = timestamp ?x"
    if "x \<in> set (parseLyrics content)" and "lineNumber x = i + 1" for x
  proof -
    from that have "x \<in> set (lrcLine i ?l)"
      using in_tagged_result [OF mode, of x i] by blast
    then show ?thesis using entry by simp
  qed
  from here only show ?thesis by simp
qed




theorem tag_timestamp_witness:
  "trim (split_nl (js ''[00:01.5] hello'') ! 0) =
     tagText (js ''00'') (js ''01'') (js ''5'') @ js '' hello'' \<and>
   \<lparr>timestamp = number_value (105 / 100), lyricText = js ''hello'', lineNumber = 1\<rparr>
     \<in> set (parseLyrics (js ''[00:01.5] hello'')) \<and>
   number_value (105 / 100) \<noteq> Fin (3 / 2) \<and>
   \<lparr>timestamp = Fin (3 / 2), lyricText = js ''hello'', lineNumber = 1\<rparr>
     \<in> set (parseLyrics (js ''[00:01.50] hello'')) \<and>
   \<lparr>timestamp = Fin (1 / 4), lyricText = js ''world'', lineNumber = 1\<rparr>
     \<in> set (parseLyrics (js ''[00:00.25] world''))"
proof -
  have g: "digitGroup (js ''00'')" "digitGroup (js ''01'')" "digitGroup (js ''5'')"
    "digitGroup (js ''50'')" "digitGroup (js ''25'')"
    by code_simp+
  have t: "trim (afterTag (js '' hello'')) \<noteq> []" "trim (afterTag (js '' world'')) \<noteq> []"
    by code_simp+
  have a1: "0 < length (split_nl (js ''[00:01.5] hello''))" by code_simp
  have a2: "trim (split_nl (js ''[00:01.5] hello'') ! 0) =
              tagText (js ''00'') (js ''01'') (js ''5'') @ js '' hello''" by code_simp
  have a3: "\<lparr>timestamp = stampOf (decimal (js ''00'')) (decimal (js ''01'')) (decimal (js ''5'')),
             lyricText = trim (afterTag (js '' hello'')), lineNumber = 0 + 1\<rparr> =
            \<lparr>timestamp = number_value (105 / 100), lyricText = js ''hello'', lineNumber = 1\<rparr>"
    by code_simp
  have a4: "number_value (105 / 100) \<noteq> Fin (3 / 2)" by code_simp
  have b1: "0 < length (split_nl (js ''[00:01.50] hello''))" by code_simp
  have b2: "trim (split_nl (js ''[00:01.50] hello'') ! 0) =
              tagText (js ''00'') (js ''01'') (js ''50'') @ js '' hello''" by code_simp
  have b3: "\<lparr>timestamp = stampOf (decimal (js ''00'')) (decimal (js ''01'')) (decimal (js ''50'')),
             lyricText = trim (afterTag (js '' hello'')), lineNumber = 0 + 1\<rparr> =
            \<lparr>timestamp = Fin (3 / 2), lyricText = js ''hello'', lineNumber = 1\<rparr>" by code_simp
  have c1: "0 < length (split_nl (js ''[00:00.25] world''))" by code_simp
  have c2: "trim (split_nl (js ''[00:00.25] world'') ! 0) =
              tagText (js ''00'') (js ''00'') (js ''25'') @ js '' world''" by code_simp
  have c3: "\<lparr>timestamp = stampOf (decimal (js ''00'')) (decimal (js ''00'')) (decimal (js ''25'')),
             lyricText = trim (afterTag (js '' world'')), lineNumber = 0 + 1\<rparr> =
            \<lparr>timestamp = Fin (1 / 4), lyricText = js ''world'', lineNumber = 1\<rparr>" by code_simp
  show ?thesis
    using a2 a4
      tag_timestamp [OF a1 a2 g(1) g(2) g(3) t(1), THEN conjunct1, unfolded a3]
      tag_timestamp [OF b1 b2 g(1) g(2) g(4) t(1), THEN conjunct1, unfolded b3]
      tag_timestamp [OF c1 c2 g(1) g(1) g(5) t(2), THEN conjunct1, unfolded c3]
    by (intro conjI)
qed


subsection \<open>Sample runs\<close>

theorem parseLyrics_sorted_witness:
  "sorted_wrt ordered (parseLyrics demo_tags) \<and>
   parseLyrics demo_tags =
     [\<lparr>timestamp = Fin (1 / 2), lyricText = js ''a'', lineNumber = 2\<rparr>,
      \<lparr>timestamp = Fin 1, lyricText = js ''b'', lineNumber = 1\<rparr>,
      \<lparr>timestamp = Fin 1, lyricText = js ''c'', lineNumber = 3\<rparr>] \<and>
   sorted_wrt ordered (parseLyrics demo_rounded) \<and>
   parseLyrics demo_rounded =
     [\<lparr>timestamp = number_value (114 / 100), lyricText = js ''second'', lineNumber = 2\<rparr>,
      \<lparr>timestamp = jadd (Fin 1) (number_value (14 / 100)), lyricText = js ''first'',
       lineNumber = 1\<rparr>] \<and>
   number_value (114 / 100) \<noteq> jadd (Fin 1) (number_value (14 / 100))"
proof -
  have 1: "parseLyrics demo_tags =
     [\<lparr>timestamp = Fin (1 / 2), lyricText = js ''a'', lineNumber = 2\<rparr>,
      \<lparr>timestamp = Fin 1, lyricText = js ''b'', lineNumber = 1\<rparr>,
      \<lparr>timestamp = Fin 1, lyricText = js ''c'', lineNumber = 3\<rparr>]"
    by code_simp
  have 2: "parseLyrics demo_rounded =
     [\<lparr>timestamp = number_value (114 / 100), lyricText = js ''second'', lineNumber = 2\<rparr>,
      \<lparr>timestamp = jadd (Fin 1) (number_value (14 / 100)), lyricText = js ''first'',
       lineNumber = 1\<rparr>]"
    by code_simp
  have 3: "number_value (114 / 100) \<noteq> jadd (Fin 1) (number_value (14 / 100))"
    by code_simp
  from parseLyrics_sorted [of demo_tags] 1 parseLyrics_sorted [of demo_rounded] 2 3
  show ?thesis by (intro conjI)
qed

theorem parseLyrics_tag_mode_witness:
  "(\<exists>l\<in>set (split_nl demo_mixed). tagged l) \<and>
   (set (parseLyrics demo_mixed) =
      {\<lparr>timestamp = jadd (jadd (jmul (parseInt g1) (Fin 60)) (parseInt g2))
                     (jdiv (parseInt g3) (Fin 100)),
        lyricText = trim g4, lineNumber = i + 1\<rparr> | i g1 g2 g3 g4.
       i < length (split_nl demo_mixed) \<and>
       match_lrc (trim (split_nl demo_mixed ! i)) = Some (g1, g2, g3, g4) \<and> trim g4 \<noteq> []}
    \<and> distinct (map lineNumber (parseLyrics demo_mixed))) \<and>
   parseLyrics demo_mixed = [\<lparr>timestamp = Fin 1, lyricText = js ''a'', lineNumber = 1\<rparr>]"
proof -
  have h: "\<exists>l\<in>set (split_nl demo_mixed). tagged l" by code_simp
  have e: "parseLyrics demo_mixed = [\<lparr>timestamp = Fin 1, lyricText = js ''a'', lineNumber = 1\<rparr>]"
    by code_simp
  show ?thesis
    by (rule conjI [OF h conjI [OF parseLyrics_tag_mode [OF h] e]])
qed

theorem parseLyrics_fallback_mode_witness:
  "list_all (\<lambda>l. \<not> tagged l) (split_nl demo_plain) \<and>
   (set (parseLyrics demo_plain) =
      {\<lparr>timestamp = parseFloat (hd parts), lyricText = join_sp (tl parts),
        lineNumber = i + 1\<rparr> | i parts.
       i < length (split_nl demo_plain) \<and> trim (split_nl demo_plain ! i) \<noteq> [] \<and>
       parts = split_ws (trim (split_nl demo_plain ! i)) \<and>
       2 \<le> length parts \<and> \<not> isNaN (parseFloat (hd parts)) \<and>
       jge (parseFloat (hd parts)) (Fin 0)}) \<and>
   distinct (map lineNumber (parseLyrics demo_plain)) \<and>
   parseLyrics demo_plain =
     [\<lparr>timestamp = Fin (1 / 2), lyricText = js ''hi there'', lineNumber = 1\<rparr>,
      \<lparr>timestamp = Fin 2, lyricText = js ''bye'', lineNumber = 3\<rparr>] \<and>
   list_all (\<lambda>l. \<not> tagged l) (split_nl demo_signed) \<and>
   hd (split_ws (trim (split_nl demo_signed ! 0))) = 0x2D # js ''1'' \<and>
   list_all (\<lambda>x. lineNumber x \<noteq> 0 + 1) (parseLyrics demo_signed) \<and>
   parseLyrics demo_signed =
     [\<lparr>timestamp = Fin 0, lyricText = js ''zero'', lineNumber = 3\<rparr>,
      \<lparr>timestamp = Fin 2, lyricText = js ''after'', lineNumber = 2\<rparr>]"
proof -
  have h: "list_all (\<lambda>l. \<not> tagged l) (split_nl demo_plain)" by code_simp
  then have h': "\<forall>l\<in>set (split_nl demo_plain). \<not> tagged l"
    by (simp only: list_all_iff)
  have e: "parseLyrics demo_plain =
     [\<lparr>timestamp = Fin (1 / 2), lyricText = js ''hi there'', lineNumber = 1\<rparr>,
      \<lparr>timestamp = Fin 2, lyricText = js ''bye'', lineNumber = 3\<rparr>]"
    by code_simp
  have k: "list_all (\<lambda>l. \<not> tagged l) (split_nl demo_signed)" by code_simp
  then have k': "\<forall>l\<in>set (split_nl demo_signed). \<not> tagged l"
    by (simp only: list_all_iff)
  have k1: "0 < length (split_nl demo_signed)" by code_simp
  have k2: "hd (split_ws (trim (split_nl demo_signed ! 0))) = 0x2D # js ''1''" by code_simp
  have k3: "digitGroup (js ''1'')" "0 < decimal (js ''1'')" by code_simp+
  have "\<forall>x\<in>set (parseLyrics demo_signed). lineNumber x \<noteq> 0 + 1"
    using parseLyrics_fallback_mode [OF k', THEN conjunct2, THEN conjunct2, rule_format,
        of 0 "js ''1''"] k1 k2 k3 by blast
  then have k4: "list_all (\<lambda>x. lineNumber x \<noteq> 0 + 1) (parseLyrics demo_signed)"
    by (simp only: list_all_iff)
  have k5: "parseLyrics demo_signed =
     [\<lparr>timestamp = Fin 0, lyricText = js ''zero'', lineNumber = 3\<rparr>,
      \<lparr>timestamp = Fin 2, lyricText = js ''after'', lineNumber = 2\<rparr>]"
    by code_simp
  from h parseLyrics_fallback_mode [OF h', THEN conjunct1]
    parseLyrics_fallback_mode [OF h', THEN conjunct2, THEN conjunct1] e k k2 k4 k5
  show ?thesis by (intro conjI)
qed

theorem parseLyrics_total_witness:
  "list_all isSpace demo_blank \<and>
   parseLyrics demo_blank = [] \<and>
   length (parseLyrics demo_blank) \<le> length (split_nl demo_blank) \<and>
   list_all (\<lambda>l. \<not> tagged l \<and> length (split_ws (trim l)) < 2) (split_nl (js ''hello'')) \<and>
   parseLyrics (js ''hello'') = []"
proof -
  have h: "list_all isSpace demo_blank" by code_simp
  then have h': "\<forall>c\<in>set demo_blank. isSpace c" by (simp only: list_all_iff)
  have k: "list_all (\<lambda>l. \<not> tagged l \<and> length (split_ws (trim l)) < 2) (split_nl (js ''hello''))"
    by code_simp
  then have k': "\<forall>l\<in>set (split_nl (js ''hello'')). \<not> tagged l \<and> length (split_ws (trim l)) < 2"
    by (simp only: list_all_iff)
  note t1 = parseLyrics_total [of demo_blank]
  note t2 = parseLyrics_total [of "js ''hello''"]
  have 1: "parseLyrics demo_blank = []" using t1 h' by blast
  have 2: "length (parseLyrics demo_blank) \<le> length (split_nl demo_blank)" using t1 by blast
  have 3: "parseLyrics (js ''hello'') = []" using t2 k' by blast
  from h 1 2 k 3 show ?thesis by (intro conjI)
qed

text \<open>
  \<open>parseFloat\<close> reads the longest numeric prefix of a piece, \<open>Infinity\<close> included,
  and a number too small for a double is zero.
\<close>

lemma fallback_reads_numeric_prefix:
  "parseLyrics (js ''12abc hello'') =
     [\<lparr>timestamp = Fin 12, lyricText = js ''hello'', lineNumber = 1\<rparr>] \<and>
   parseLyrics (js ''1.5.3 hello'') =
     [\<lparr>timestamp = Fin (3 / 2), lyricText = js ''hello'', lineNumber = 1\<rparr>] \<and>
   parseLyrics (js ''0x10 hello'') =
     [\<lparr>timestamp = Fin 0, lyricText = js ''hello'', lineNumber = 1\<rparr>] \<and>
   parseLyrics (js ''Infinity and beyond'') =
     [\<lparr>timestamp = PosInf, lyricText = js ''and beyond'', lineNumber = 1\<rparr>]"
  by code_simp

lemma fallback_rounds_to_zero:
  "parseLyrics (js ''-1e-400 early'') =
     [\<lparr>timestamp = Fin 0, lyricText = js ''early'', lineNumber = 1\<rparr>]"
proof -
  have l: "split_nl (js ''-1e-400 early'') = [js ''-1e-400 early'']"
    by code_simp
  have "\<not> tagged (js ''-1e-400 early'')"
    by code_simp
  then have "\<forall>l\<in>set (split_nl (js ''-1e-400 early'')). \<not> tagged l"
    by (simp only: l) simp
  then show ?thesis
    by (simp only: parseLyrics_plain l) (simp add: plainLine_underflow array_sort_def)
qed

section \<open>The synchronizer\<close>

lemma findLyric_filter:
  "k \<le> length ls \<Longrightarrow>
   findLyric ls t k =
     (case filter (\<lambda>i. jge t (timestamp (ls ! i))) (rev [0..<k]) of
        [] \<Rightarrow> - 1 | i # _ \<Rightarrow> int i)"
  by (induction k) auto

lemma findLyric_spec_index: "findLyric ls t (length ls) = spec_index ls t"
  by (simp add: findLyric_filter spec_index_def)

lemma findLyric_none:
  "\<forall>l\<in>set ls. jge (timestamp l) (Fin 0) \<Longrightarrow> \<not> jge t (Fin 0) \<Longrightarrow> k \<le> length ls \<Longrightarrow>
   findLyric ls t k = - 1"
proof (induction k)
  case 0
  then show ?case by simp
next
  case (Suc k)
  then have "jge (timestamp (ls ! k)) (Fin 0)" by simp
  with Suc.prems(2) have "\<not> jge t (timestamp (ls ! k))"
    using jge_trans by blast
  with Suc show ?case by simp
qed

lemma updateLyrics_playing:
  assumes "isPlaying p" "hasAudioElement p"
  shows "updateLyrics p t =
           (p\<lparr>currentLyricIndex := spec_index (lyrics p) t,
              display := (if spec_index (lyrics p) t = currentLyricIndex p then display p
                          else if 0 \<le> spec_index (lyrics p) t
                               then lyricText (lyrics p ! nat (spec_index (lyrics p) t)) else [])\<rparr>,
            spec_index (lyrics p) t \<noteq> currentLyricIndex p)"
  using assms by (simp add: updateLyrics_def findLyric_spec_index Let_def)

lemma ticks_spec:
  "isPlaying p \<Longrightarrow> hasAudioElement p \<Longrightarrow>
   ticks p ts = spec_changes (currentLyricIndex p) (map (spec_index (lyrics p)) ts)"
proof (induction ts arbitrary: p)
  case Nil
  then show ?case by simp
next
  case (Cons t ts)
  let ?p' = "fst (updateLyrics p t)"
  have p': "isPlaying ?p'" "hasAudioElement ?p'" "lyrics ?p' = lyrics p"
    "currentLyricIndex ?p' = spec_index (lyrics p) t"
    using Cons.prems by (simp_all add: updateLyrics_playing)
  have "ticks ?p' ts = spec_changes (currentLyricIndex ?p') (map (spec_index (lyrics ?p')) ts)"
    using p' by (intro Cons.IH)
  then show ?case
    using Cons.prems p' by (simp add: updateLyrics_playing split: prod.splits)
qed

lemma findLyric_highest:
  "k \<le> length ls \<Longrightarrow>
   (findLyric ls t k = - 1 \<and> (\<forall>j<k. \<not> jge t (timestamp (ls ! j)))) \<or>
   (\<exists>i<k. findLyric ls t k = int i \<and> jge t (timestamp (ls ! i)) \<and>
      (\<forall>j<k. i < j \<longrightarrow> \<not> jge t (timestamp (ls ! j))))"
  by (induction k) (auto simp: less_Suc_eq)

text \<open>
  C4: with all time stamps at least 0, every tick of a playing synchronizer resolves
  the highest index whose time stamp is at most the current time, or -1 when there is
  none (so for a negative or NaN current time), and the change flag of a tick says
  whether that index differs from the one of the tick before (-1 before the first).
\<close>

theorem updateLyrics_active_index:
  assumes "\<forall>l\<in>set ls. jge (timestamp l) (Fin 0)"
  shows "ticks (playing ls) tms = spec_changes (- 1) (map (spec_index ls) tms) \<and>
         (\<forall>t. (spec_index ls t = - 1 \<and> (\<forall>j<length ls. \<not> jge t (timestamp (ls ! j)))) \<or>
              (\<exists>i<length ls. spec_index ls t = int i \<and> jge t (timestamp (ls ! i)) \<and>
                 (\<forall>j<length ls. i < j \<longrightarrow> \<not> jge t (timestamp (ls ! j))))) \<and>
         (\<forall>t. \<not> jge t (Fin 0) \<longrightarrow> spec_index ls t = - 1)"
proof (intro conjI allI impI)
  show "ticks (playing ls) tms = spec_changes (- 1) (map (spec_index ls) tms)"
    by (simp add: ticks_spec playing_def)
next
  fix t
  show "(spec_index ls t = - 1 \<and> (\<forall>j<length ls. \<not> jge t (timestamp (ls ! j)))) \<or>
        (\<exists>i<length ls. spec_index ls t = int i \<and> jge t (timestamp (ls ! i)) \<and>
           (\<forall>j<length ls. i < j \<longrightarrow> \<not> jge t (timestamp (ls ! j))))"
    using findLyric_highest [of "length ls" ls t] by (simp add: findLyric_spec_index)
next
  fix t
  assume "\<not> jge t (Fin 0)"
  then show "spec_index ls t = - 1"
    using assms findLyric_none [of ls t "length ls"] by (simp add: findLyric_spec_index)
qed


theorem updateLyrics_active_index_witness:
  "list_all (\<lambda>l. jge (timestamp l) (Fin 0)) demo_lyrics \<and>
   ticks (playing demo_lyrics) [Fin (- 1), Fin 0, Fin 5, Fin 10, Fin 25, NaN] =
     [(- 1, False), (0, True), (0, False), (1, True), (2, True), (- 1, True)]"
proof -
  have h: "\<forall>l\<in>set demo_lyrics. jge (timestamp l) (Fin 0)"
    by (simp add: demo_lyrics_def)
  have s: "spec_index demo_lyrics (Fin (- 1)) = - 1" "spec_index demo_lyrics (Fin 0) = 0"
    "spec_index demo_lyrics (Fin 5) = 0" "spec_index demo_lyrics (Fin 10) = 1"
    "spec_index demo_lyrics (Fin 25) = 2" "spec_index demo_lyrics NaN = - 1"
    by (simp_all add: spec_index_def demo_lyrics_def upt_conv_Cons)
  show ?thesis
    using h updateLyrics_active_index [OF h, of "[Fin (- 1), Fin 0, Fin 5, Fin 10, Fin 25, NaN]",
        THEN conjunct1]
    by (simp add: s list_all_iff)
qed


section \<open>The registry\<close>

lemma demo_hash:
  "calculateFileHash demo_env (js ''uploads/2-b.lrc'') = Inr (Some (js ''ab''))"
  by (simp add: calculateFileHash_def demo_env_def js_def)

text \<open>
  C2, as claimed: registering a file whose digest already has a record fails and leaves
  the record as it is. Here the second registration returns a new record and stores it
  in place of the first.
\<close>

theorem registerFile_duplicate_counterexample:
  "demo_registry (js ''ab'') = Some demo_record \<and>
   registerFile demo_env demo_registry (js ''uploads/2-b.lrc'') (js ''b.lrc'') =
     Inr (Some (demo_record\<lparr>filename := js ''2-b.lrc'', originalName := js ''b.lrc'',
                              uploadDate := js ''2024-01-02T00:00:00.000Z''\<rparr>),
          demo_registry(js ''ab'' \<mapsto>
             demo_record\<lparr>filename := js ''2-b.lrc'', originalName := js ''b.lrc'',
                          uploadDate := js ''2024-01-02T00:00:00.000Z''\<rparr>)) \<and>
   demo_record\<lparr>filename := js ''2-b.lrc'', originalName := js ''b.lrc'',
                uploadDate := js ''2024-01-02T00:00:00.000Z''\<rparr> \<noteq> demo_record"
  by (simp add: registerFile_def demo_hash demo_registry_def demo_record_def Let_def)
     (simp add: demo_env_def js_def)

text \<open>
  C2, amended: whenever the digest of the file can be computed, \<open>registerFile\<close>
  succeeds, whether or not the digest already has a record: it returns the new record
  and stores it under the digest, in place of any record stored there before.
\<close>

theorem registerFile_replaces:
  assumes "calculateFileHash e filePath = Inr (Some d)" and "d \<noteq> []"
  shows "registerFile e fileHashes filePath origName =
           Inr (Some \<lparr>filename = basename e filePath, originalName = origName,
                      uploadDate = now e, hash = d\<rparr>,
                fileHashes(d \<mapsto> \<lparr>filename = basename e filePath, originalName = origName,
                                  uploadDate = now e, hash = d\<rparr>))"
  using assms by (simp add: registerFile_def Let_def)

theorem registerFile_replaces_witness:
  "calculateFileHash demo_env (js ''uploads/2-b.lrc'') = Inr (Some (js ''ab'')) \<and>
   js ''ab'' \<noteq> [] \<and>
   demo_registry (js ''ab'') = Some demo_record \<and>
   registerFile demo_env demo_registry (js ''uploads/2-b.lrc'') (js ''b.lrc'') =
     Inr (Some \<lparr>filename = basename demo_env (js ''uploads/2-b.lrc''),
                originalName = js ''b.lrc'', uploadDate = now demo_env, hash = js ''ab''\<rparr>,
          demo_registry(js ''ab'' \<mapsto>
            \<lparr>filename = basename demo_env (js ''uploads/2-b.lrc''),
             originalName = js ''b.lrc'', uploadDate = now demo_env, hash = js ''ab''\<rparr>))"
proof -
  have h1: "calculateFileHash demo_env (js ''uploads/2-b.lrc'') = Inr (Some (js ''ab''))"
    by (rule demo_hash)
  have h2: "js ''ab'' \<noteq> []" by (simp add: js_def)
  have h3: "demo_registry (js ''ab'') = Some demo_record" by (simp add: demo_registry_def)
  show ?thesis
    using h1 h2 h3 registerFile_replaces [OF h1 h2, of demo_registry "js ''b.lrc''"] by simp
qed

text \<open>
  C8, as claimed: when the file cannot be read, the look-up and the registration pass an
  error on to the caller. Here no exception leaves either of them: both return
  \<open>null\<close>, the look-up as it does for a file that has no duplicate.
\<close>

theorem hash_failure_counterexample:
  "readFileSync demo_env (js ''uploads/gone.lrc'') = Inl IOError \<and>
   findDuplicateFile demo_env demo_registry (js ''uploads/gone.lrc'') = Inr None \<and>
   registerFile demo_env demo_registry (js ''uploads/gone.lrc'') (js ''gone.lrc'') =
     Inr (None, demo_registry)"
  by (simp add: findDuplicateFile_def registerFile_def calculateFileHash_def
        demo_env_def js_def)

text \<open>
  C8, amended: when the file cannot be read, \<open>calculateFileHash\<close> returns \<open>null\<close>,
  and so do \<open>findDuplicateFile\<close> and \<open>registerFile\<close>, which leaves the registry as it
  is; no exception reaches the caller.
\<close>

theorem hash_failure_returns_null:
  assumes "readFileSync e filePath = Inl err"
  shows "calculateFileHash e filePath = Inr None \<and>
         findDuplicateFile e fileHashes filePath = Inr None \<and>
         registerFile e fileHashes filePath origName = Inr (None, fileHashes)"
  using assms by (simp add: findDuplicateFile_def registerFile_def calculateFileHash_def)

theorem hash_failure_returns_null_witness:
  "readFileSync demo_env (js ''uploads/gone.lrc'') = Inl IOError \<and>
   calculateFileHash demo_env (js ''uploads/gone.lrc'') = Inr None \<and>
   findDuplicateFile demo_env demo_registry (js ''uploads/gone.lrc'') = Inr None \<and>
   registerFile demo_env demo_registry (js ''uploads/gone.lrc'') (js ''gone.lrc'') =
     Inr (None, demo_registry)"
proof -
  have h: "readFileSync demo_env (js ''uploads/gone.lrc'') = Inl IOError"
    by (simp add: demo_env_def js_def)
  show ?thesis
    using h hash_failure_returns_null [OF h, of demo_registry "js ''gone.lrc''"] by simp
qed

lemma calculateFileHash_Inr: "\<exists>h. calculateFileHash e p = Inr h"
  by (simp add: calculateFileHash_def split: sum.splits)

lemma initLoop_step:
  "initLoop e (file # files) reg =
     (if \<not> statOk e file then (reg, Some (projl (statSync e (join_uploads e file))))
      else case digestOf e file of
             None \<Rightarrow> initLoop e files reg
           | Some d \<Rightarrow>
               if reg d = None
               then initLoop e files
                      (reg(d \<mapsto> \<lparr>filename = file, originalName = file,
                                  uploadDate = mtime (projr (statSync e (join_uploads e file))),
                                  hash = d\<rparr>))
               else initLoop e files reg)"
  using calculateFileHash_Inr [of e "join_uploads e file"]
  by (auto simp: statOk_def digestOf_def Let_def split: sum.splits option.splits)

lemma initLoop_keeps:
  "reg d = Some r \<Longrightarrow> fst (initLoop e files reg) d = Some r"
proof (induction files arbitrary: reg)
  case Nil
  then show ?case by simp
next
  case (Cons f0 files)
  show ?case
    unfolding initLoop_step using Cons.prems
    by (auto split: option.splits intro!: Cons.IH)
qed

lemma initLoop_dom:
  "\<forall>f\<in>set files. statOk e f \<Longrightarrow>
   dom (fst (initLoop e files reg)) = dom reg \<union> {d. \<exists>f\<in>set files. digestOf e f = Some d}"
proof (induction files arbitrary: reg)
  case Nil
  then show ?case by simp
next
  case (Cons f0 files)
  then have ok: "statOk e f0" and rest: "\<forall>f\<in>set files. statOk e f" by simp_all
  show ?case
  proof (cases "digestOf e f0")
    case None
    then show ?thesis
      using ok Cons.IH [OF rest, of reg] by (simp add: initLoop_step del: initLoop.simps)
  next
    case (Some d)
    show ?thesis
    proof (cases "reg d")
      case None
      then show ?thesis
        using ok Some Cons.IH [OF rest] by (auto simp: initLoop_step simp del: initLoop.simps split: if_splits)
    next
      case (Some r)
      then show ?thesis
        using ok \<open>digestOf e f0 = Some d\<close> Cons.IH [OF rest, of reg]
        by (auto simp: initLoop_step simp del: initLoop.simps split: if_splits)
    qed
  qed
qed


lemma initLoop_first:
  assumes "\<forall>g\<in>set pre. statOk e g \<and> digestOf e g \<noteq> Some d"
    and "statOk e f" and "digestOf e f = Some d" and "reg d = None"
  shows "fst (initLoop e (pre @ f # post) reg) d =
           Some \<lparr>filename = f, originalName = f,
                 uploadDate = mtime (projr (statSync e (join_uploads e f))), hash = d\<rparr>"
  using assms
proof (induction pre arbitrary: reg)
  case Nil
  then show ?case
    by (simp add: initLoop_step initLoop_keeps del: initLoop.simps)
next
  case (Cons g pre)
  then have g: "statOk e g" "digestOf e g \<noteq> Some d" by simp_all
  have step: "\<And>reg'. reg' d = None \<Longrightarrow>
      fst (initLoop e (pre @ f # post) reg') d =
        Some \<lparr>filename = f, originalName = f,
              uploadDate = mtime (projr (statSync e (join_uploads e f))), hash = d\<rparr>"
    using Cons.prems by (intro Cons.IH) simp_all
  show ?case
    using g Cons.prems(4)
    by (auto simp: initLoop_step step simp del: initLoop.simps split: option.splits)
qed

lemma initLoop_hash:
  assumes "\<And>d r. reg d = Some r \<Longrightarrow> hash r = d"
    and "fst (initLoop e files reg) d = Some r"
  shows "hash r = d"
  using assms
proof (induction files arbitrary: reg)
  case Nil
  then show ?case by simp
next
  case (Cons f0 files)
  show ?case
  proof (cases "statOk e f0")
    case False
    then show ?thesis
      using Cons.prems by (simp add: initLoop_step del: initLoop.simps)
  next
    case ok: True
    show ?thesis
    proof (cases "digestOf e f0")
      case None
      then show ?thesis
        using ok Cons.prems Cons.IH [of reg] by (simp add: initLoop_step del: initLoop.simps)
    next
      case (Some d0)
      show ?thesis
      proof (cases "reg d0")
        case None
        let ?reg = "reg(d0 \<mapsto> \<lparr>filename = f0, originalName = f0,
                       uploadDate = mtime (projr (statSync e (join_uploads e f0))), hash = d0\<rparr>)"
        have inv: "\<And>d r. ?reg d = Some r \<Longrightarrow> hash r = d"
          using Cons.prems(1) by (auto split: if_splits)
        have "fst (initLoop e files ?reg) d = Some r"
          using ok Some None Cons.prems(2) by (simp add: initLoop_step del: initLoop.simps)
        with inv show ?thesis by (rule Cons.IH)
      next
        case (Some r0)
        then show ?thesis
          using ok \<open>digestOf e f0 = Some d0\<close> Cons.prems Cons.IH [of reg]
          by (simp add: initLoop_step del: initLoop.simps)
      qed
    qed
  qed
qed

lemma initLoop_scanned:
  "fst (initLoop e files reg) = fst (initLoop e (takeWhile (statOk e) files) reg)"
proof (induction files arbitrary: reg)
  case Nil
  then show ?case by simp
next
  case (Cons f0 files)
  show ?case
  proof (cases "statOk e f0")
    case False
    then show ?thesis by (simp add: initLoop_step del: initLoop.simps(2))
  next
    case True
    show ?thesis
    proof (cases "digestOf e f0")
      case None
      with True show ?thesis
        by (simp add: initLoop_step Cons.IH [of reg] del: initLoop.simps(2))
    next
      case (Some d)
      let ?reg = "reg(d \<mapsto> \<lparr>filename = f0, originalName = f0,
                    uploadDate = mtime (projr (statSync e (join_uploads e f0))), hash = d\<rparr>)"
      from True Some show ?thesis
        by (simp add: initLoop_step Cons.IH [of reg] Cons.IH [of ?reg] del: initLoop.simps(2) fun_upd_apply)
    qed
  qed
qed

text \<open>
  C9, as claimed: a file that cannot be hashed is skipped and the load of the files
  after it goes on, so that every readable file whose digest has no record yet gets
  one. Here the first entry of the listing is gone: \<open>calculateFileHash\<close> cannot
  read it, and \<open>statSync\<close> throws on it. The second entry is a regular file that can
  be read, its digest has no record, and none is stored for it: the load ends at the
  first entry.
\<close>

theorem initializeFileHashes_counterexample:
  "existsSync_uploads demo_env_lost \<and>
   readdirSync_uploads demo_env_lost = Inr [js ''lost'', js ''3-c.lrc''] \<and>
   statSync demo_env_lost (join_uploads demo_env_lost (js ''lost'')) = Inl IOError \<and>
   calculateFileHash demo_env_lost (join_uploads demo_env_lost (js ''lost'')) = Inr None \<and>
   digestOf demo_env_lost (js ''3-c.lrc'') = Some (js ''c'') \<and>
   initializeFileHashes demo_env_lost Map.empty (js ''c'') = None"
  by (simp add: initializeFileHashes_def digestOf_def calculateFileHash_def demo_env_lost_def
        demo_env_def js_def)

text \<open>
  C9, amended: the scan covers the entries of the listing up to the first one on which
  \<open>statSync\<close> throws; that exception ends the load, and the entries after it are not
  registered. For the entries it covers, the registry after \<open>initializeFileHashes\<close>
  holds the records it held before, unchanged, and one record for each further digest
  of a readable regular file, namely that of the first such entry with that digest;
  entries that cannot be hashed add nothing and do not stop the scan. Every record
  stays stored under its own digest, so no two records have the same digest.
\<close>

theorem initializeFileHashes_load:
  assumes "existsSync_uploads e" and "readdirSync_uploads e = Inr files"
  shows "dom (initializeFileHashes e reg) =
           dom reg \<union> {d. \<exists>f\<in>set (takeWhile (statOk e) files). digestOf e f = Some d} \<and>
         (\<forall>d\<in>dom reg. initializeFileHashes e reg d = reg d) \<and>
         (\<forall>pre f post d. takeWhile (statOk e) files = pre @ f # post \<and>
              digestOf e f = Some d \<and> reg d = None \<and>
              (\<forall>g\<in>set pre. digestOf e g \<noteq> Some d) \<longrightarrow>
            initializeFileHashes e reg d =
              Some \<lparr>filename = f, originalName = f,
                    uploadDate = mtime (projr (statSync e (join_uploads e f))), hash = d\<rparr>) \<and>
         ((\<forall>d r. reg d = Some r \<longrightarrow> hash r = d) \<longrightarrow>
            (\<forall>d r. initializeFileHashes e reg d = Some r \<longrightarrow> hash r = d))"
proof (intro conjI)
  let ?scanned = "takeWhile (statOk e) files"
  have ok: "\<forall>f\<in>set ?scanned. statOk e f"
    by (meson set_takeWhileD)
  have run: "initializeFileHashes e reg = fst (initLoop e ?scanned reg)"
    using assms initLoop_scanned [of e files reg] by (simp add: initializeFileHashes_def)
  show "dom (initializeFileHashes e reg) =
          dom reg \<union> {d. \<exists>f\<in>set ?scanned. digestOf e f = Some d}"
    using initLoop_dom [OF ok] by (simp only: run)
  show "\<forall>d\<in>dom reg. initializeFileHashes e reg d = reg d"
    by (auto simp: run initLoop_keeps)
  show "\<forall>pre f post d. ?scanned = pre @ f # post \<and> digestOf e f = Some d \<and> reg d = None \<and>
              (\<forall>g\<in>set pre. digestOf e g \<noteq> Some d) \<longrightarrow>
            initializeFileHashes e reg d =
              Some \<lparr>filename = f, originalName = f,
                    uploadDate = mtime (projr (statSync e (join_uploads e f))), hash = d\<rparr>"
  proof (intro allI impI)
    fix pre f post d
    assume a: "?scanned = pre @ f # post \<and> digestOf e f = Some d \<and> reg d = None \<and>
              (\<forall>g\<in>set pre. digestOf e g \<noteq> Some d)"
    then have "\<forall>g\<in>set pre. statOk e g \<and> digestOf e g \<noteq> Some d" and "statOk e f"
      using ok by auto
    then have "fst (initLoop e (pre @ f # post) reg) d =
           Some \<lparr>filename = f, originalName = f,
                 uploadDate = mtime (projr (statSync e (join_uploads e f))), hash = d\<rparr>"
      using a by (intro initLoop_first) simp_all
    then show "initializeFileHashes e reg d =
              Some \<lparr>filename = f, originalName = f,
                    uploadDate = mtime (projr (statSync e (join_uploads e f))), hash = d\<rparr>"
      using a by (simp add: run)
  qed
  show "(\<forall>d r. reg d = Some r \<longrightarrow> hash r = d) \<longrightarrow>
          (\<forall>d r. initializeFileHashes e reg d = Some r \<longrightarrow> hash r = d)"
  proof (intro allI impI)
    fix d r
    assume inv: "\<forall>d r. reg d = Some r \<longrightarrow> hash r = d"
      and r: "initializeFileHashes e reg d = Some r"
    from r have "fst (initLoop e ?scanned reg) d = Some r"
      by (simp add: run)
    moreover have "\<And>d r. reg d = Some r \<Longrightarrow> hash r = d"
      using inv by blast
    ultimately show "hash r = d"
      by (rule initLoop_hash [rotated])
  qed
qed

lemma demo_digests:
  "digestOf demo_env (js ''1-a.lrc'') = Some (js ''ab'')"
  "digestOf demo_env (js ''gone.lrc'') = None"
  "digestOf demo_env (js ''2-b.lrc'') = Some (js ''ab'')"
  "digestOf demo_env (js ''3-c.lrc'') = Some (js ''c'')"
  by (simp_all add: digestOf_def calculateFileHash_def demo_env_def js_def)

theorem initializeFileHashes_load_witness:
  "existsSync_uploads demo_env \<and>
   readdirSync_uploads demo_env =
     Inr [js ''1-a.lrc'', js ''gone.lrc'', js ''2-b.lrc'', js ''3-c.lrc''] \<and>
   takeWhile (statOk demo_env) [js ''1-a.lrc'', js ''gone.lrc'', js ''2-b.lrc'', js ''3-c.lrc''] =
     [js ''1-a.lrc'', js ''gone.lrc'', js ''2-b.lrc'', js ''3-c.lrc''] \<and>
   readFileSync demo_env (join_uploads demo_env (js ''gone.lrc'')) = Inl IOError \<and>
   dom (initializeFileHashes demo_env Map.empty) = {js ''ab'', js ''c''} \<and>
   initializeFileHashes demo_env Map.empty (js ''ab'') =
     Some \<lparr>filename = js ''1-a.lrc'', originalName = js ''1-a.lrc'',
           uploadDate = js ''2024-01-01T00:00:00.000Z'', hash = js ''ab''\<rparr> \<and>
   initializeFileHashes demo_env Map.empty (js ''c'') =
     Some \<lparr>filename = js ''3-c.lrc'', originalName = js ''3-c.lrc'',
           uploadDate = js ''2024-01-01T00:00:00.000Z'', hash = js ''c''\<rparr>"
proof -
  let ?files = "[js ''1-a.lrc'', js ''gone.lrc'', js ''2-b.lrc'', js ''3-c.lrc'']"
  have h1: "existsSync_uploads demo_env" by (simp add: demo_env_def)
  have h2: "readdirSync_uploads demo_env = Inr ?files" by (simp add: demo_env_def)
  have h3: "takeWhile (statOk demo_env) ?files = ?files" by (simp add: statOk_def demo_env_def)
  have h4: "readFileSync demo_env (join_uploads demo_env (js ''gone.lrc'')) = Inl IOError"
    by (simp add: demo_env_def js_def)
  note load = initializeFileHashes_load [OF h1 h2, of Map.empty, unfolded h3]
  have d: "dom (initializeFileHashes demo_env Map.empty) = {js ''ab'', js ''c''}"
    using load demo_digests by auto
  have st: "mtime (projr (statSync demo_env p)) = js ''2024-01-01T00:00:00.000Z''" for p
    by (simp add: demo_env_def)
  have a: "initializeFileHashes demo_env Map.empty (js ''ab'') =
     Some \<lparr>filename = js ''1-a.lrc'', originalName = js ''1-a.lrc'',
           uploadDate = js ''2024-01-01T00:00:00.000Z'', hash = js ''ab''\<rparr>"
    using load [THEN conjunct2, THEN conjunct2, THEN conjunct1, rule_format,
        of "[]" "js ''1-a.lrc''" "[js ''gone.lrc'', js ''2-b.lrc'', js ''3-c.lrc'']" "js ''ab''"]
    by (simp add: demo_digests st)
  have c: "initializeFileHashes demo_env Map.empty (js ''c'') =
     Some \<lparr>filename = js ''3-c.lrc'', originalName = js ''3-c.lrc'',
           uploadDate = js ''2024-01-01T00:00:00.000Z'', hash = js ''c''\<rparr>"
    using load [THEN conjunct2, THEN conjunct2, THEN conjunct1, rule_format,
        of "[js ''1-a.lrc'', js ''gone.lrc'', js ''2-b.lrc'']" "js ''3-c.lrc''" "[]" "js ''c''"]
    by (simp add: demo_digests st) (simp add: js_def)
  show ?thesis using h1 h2 h3 h4 d a c by simp
qed

end
